theory Spec2Isabelle
  imports Main
begin

section \<open>JavaScript values\<close>

text \<open>
  The gateway is untyped JavaScript: the request body is whatever JSON the client sent, and
  the service receives its fields unchecked. Values are therefore modelled as a datatype of
  JSON-like values. Strings are lists of 8-bit characters, read as the code units below 256.
  A number \<open>JNum n\<close> is an integral number value of magnitude below \<open>2^53\<close>; other numbers are
  floating point and are left out. An object is the list of its own properties after
  parsing, each key once; all of them are data, since JSON has no functions.
\<close>

datatype jsval =
    JUndefined
  | JNull
  | JBool bool
  | JNum int
  | JStr string
  | JArr "jsval list"
  | JObj "(string \<times> jsval) list"

datatype js_error =
    TypeError
  | ERR_HTTP_HEADERS_SENT
  | ERR_INVALID_ARG_VALUE

text \<open>\<open>Array.prototype.join\<close> on an array of strings.\<close>

fun js_join :: "string \<Rightarrow> string list \<Rightarrow> string" where
  "js_join sep [] = []"
| "js_join sep [x] = x"
| "js_join sep (x # y # ys) = x @ sep @ js_join sep (y # ys)"

text \<open>The decimal numeral of an integer, which is the text of an integral number value.\<close>

definition digit_char :: "nat \<Rightarrow> char" where
  "digit_char d = ''0123456789'' ! d"

function dec_nat :: "nat \<Rightarrow> string" where
  "dec_nat n = (if n < 10 then [digit_char n] else dec_nat (n div 10) @ [digit_char (n mod 10)])"
  by pat_completeness auto
termination
  by (relation "measure (\<lambda>n. n)") auto

declare dec_nat.simps [simp del]

definition dec_int :: "int \<Rightarrow> string" where
  "dec_int i = (if i < 0 then CHR ''-'' # dec_nat (nat (- i)) else dec_nat (nat i))"

text \<open>
  \<open>String(v)\<close>, which is also what a template literal applies to an interpolated value. An
  array joins the texts of its elements with a comma, \<open>null\<close> and \<open>undefined\<close> elements giving
  the empty string (\<open>js_elems\<close>). An object is converted by its \<open>toString\<close>: without an own
  property of that name it inherits the one that gives \<open>[object Object]\<close>; with one, which
  cannot be called, the conversion falls back on \<open>valueOf\<close>, gets no primitive value, and
  throws a TypeError.
\<close>

fun js_String :: "jsval \<Rightarrow> js_error + string"
  and js_elems :: "jsval list \<Rightarrow> js_error + string list" where
  "js_String JUndefined = Inr ''undefined''"
| "js_String JNull = Inr ''null''"
| "js_String (JBool b) = Inr (if b then ''true'' else ''false'')"
| "js_String (JNum n) = Inr (dec_int n)"
| "js_String (JStr s) = Inr s"
| "js_String (JArr xs) =
     (case js_elems xs of Inl e \<Rightarrow> Inl e | Inr parts \<Rightarrow> Inr (js_join '','' parts))"
| "js_String (JObj ps) =
     (if ''toString'' \<in> set (map fst ps) then Inl TypeError else Inr ''[object Object]'')"
| "js_elems [] = Inr []"
| "js_elems (x # xs) =
     (case (if x = JUndefined \<or> x = JNull then Inr [] else js_String x) of
        Inl e \<Rightarrow> Inl e
      | Inr part \<Rightarrow> (case js_elems xs of Inl e \<Rightarrow> Inl e | Inr parts \<Rightarrow> Inr (part # parts)))"

text \<open>Truthiness, as tested by \<open>if (v)\<close>, \<open>!v\<close> and \<open>a || b\<close>.\<close>

fun truthy :: "jsval \<Rightarrow> bool" where
  "truthy JUndefined = False"
| "truthy JNull = False"
| "truthy (JBool b) = b"
| "truthy (JNum n) = (n \<noteq> 0)"
| "truthy (JStr s) = (s \<noteq> [])"
| "truthy (JArr xs) = True"
| "truthy (JObj ps) = True"

definition js_or :: "jsval \<Rightarrow> jsval \<Rightarrow> jsval" where
  "js_or a b = (if truthy a then a else b)"

fun js_typeof :: "jsval \<Rightarrow> string" where
  "js_typeof JUndefined = ''undefined''"
| "js_typeof JNull = ''object''"
| "js_typeof (JBool b) = ''boolean''"
| "js_typeof (JNum n) = ''number''"
| "js_typeof (JStr s) = ''string''"
| "js_typeof (JArr xs) = ''object''"
| "js_typeof (JObj ps) = ''object''"

text \<open>
  Property read \<open>v.k\<close>, for the keys the gateway reads (\<open>role\<close>, \<open>content\<close>, \<open>prompt\<close>,
  \<open>system\<close>, \<open>model\<close>), none of which is inherited from a prototype: reading a property of
  \<open>null\<close> or \<open>undefined\<close> throws a TypeError, an object gives its own property or
  \<open>undefined\<close>, every other value gives \<open>undefined\<close>.
\<close>

fun get_prop :: "jsval \<Rightarrow> string \<Rightarrow> js_error + jsval" where
  "get_prop JUndefined k = Inl TypeError"
| "get_prop JNull k = Inl TypeError"
| "get_prop (JObj ps) k = Inr (case map_of ps k of None \<Rightarrow> JUndefined | Some v \<Rightarrow> v)"
| "get_prop (JBool b) k = Inr JUndefined"
| "get_prop (JNum n) k = Inr JUndefined"
| "get_prop (JStr s) k = Inr JUndefined"
| "get_prop (JArr xs) k = Inr JUndefined"

text \<open>\<open>Array.prototype.map\<close> with a callback that may throw: the first exception ends it.\<close>

fun map_throwing :: "('a \<Rightarrow> js_error + 'b) \<Rightarrow> 'a list \<Rightarrow> js_error + 'b list" where
  "map_throwing f [] = Inr []"
| "map_throwing f (x # xs) =
     (case f x of
        Inl e \<Rightarrow> Inl e
      | Inr y \<Rightarrow> (case map_throwing f xs of Inl e \<Rightarrow> Inl e | Inr ys \<Rightarrow> Inr (y # ys)))"


section \<open>GeminiService: building the argument vector\<close>

text \<open>
  The callback of \<open>messages.map\<close> in \<open>_buildArgs\<close>: the prefix starts as \<open>User\<close> and is
  replaced according to \<open>msg.role\<close>; the result is \<open>`${prefix}: ${msg.content}`\<close>.
\<close>

definition render_msg :: "jsval \<Rightarrow> js_error + string" where
  "render_msg msg =
     (case get_prop msg ''role'' of
        Inl e \<Rightarrow> Inl e
      | Inr role \<Rightarrow>
          (let prefix =
                 (if role = JStr ''system'' then ''System Instruction''
                  else if role = JStr ''assistant'' then ''Model''
                  else if role = JStr ''user'' then ''User''
                  else ''User'')
           in case get_prop msg ''content'' of
                Inl e \<Rightarrow> Inl e
              | Inr content \<Rightarrow>
                  (case js_String content of
                     Inl e \<Rightarrow> Inl e
                   | Inr text \<Rightarrow> Inr (prefix @ '': '' @ text))))"

text \<open>
  \<open>_buildArgs(messages, model, stream = false)\<close>. The default applies when the third argument
  is \<open>undefined\<close>. The model is passed through as it is.
\<close>

definition buildArgs :: "jsval \<Rightarrow> jsval \<Rightarrow> jsval \<Rightarrow> js_error + jsval list" where
  "buildArgs messages model stream0 =
     (let stream = (if stream0 = JUndefined then JBool False else stream0);
          fullPrompt =
            (case messages of
               JArr ms \<Rightarrow>
                 (case map_throwing render_msg ms of
                    Inl e \<Rightarrow> Inl e
                  | Inr parts \<Rightarrow> Inr (js_join ''\<newline>\<newline>'' parts))
             | _ \<Rightarrow> js_String messages)
      in case fullPrompt of
           Inl e \<Rightarrow> Inl e
         | Inr p \<Rightarrow>
             Inr ([JStr p, JStr ''-m'', model]
                  @ (if truthy stream then [JStr ''-o'', JStr ''stream-json''] else [])))"


subsection \<open>The conversation of the specification\<close>

text \<open>
  The specification's conversation: an ordered sequence of turns, each a role among system,
  user and assistant with a text. \<open>spec_flatten\<close> follows the specification's words: each
  turn is prefixed with its role label, and the turns are joined with a blank line.
\<close>

datatype role = System | User | Assistant

fun role_name :: "role \<Rightarrow> string" where
  "role_name System = ''system''"
| "role_name User = ''user''"
| "role_name Assistant = ''assistant''"

fun spec_label :: "role \<Rightarrow> string" where
  "spec_label System = ''System Instruction:''"
| "spec_label User = ''User:''"
| "spec_label Assistant = ''Model:''"

definition spec_turn :: "role \<times> string \<Rightarrow> string" where
  "spec_turn t = spec_label (fst t) @ '' '' @ snd t"

definition spec_flatten :: "(role \<times> string) list \<Rightarrow> string" where
  "spec_flatten conv = js_join ''\<newline>\<newline>'' (map spec_turn conv)"

definition js_of_turn :: "role \<times> string \<Rightarrow> jsval" where
  "js_of_turn t = JObj [(''role'', JStr (role_name (fst t))), (''content'', JStr (snd t))]"

definition is_array :: "jsval \<Rightarrow> bool" where
  "is_array v = (case v of JArr xs \<Rightarrow> True | _ \<Rightarrow> False)"

definition stream_flags :: "bool \<Rightarrow> jsval list" where
  "stream_flags streaming = (if streaming then [JStr ''-o'', JStr ''stream-json''] else [])"


section \<open>GeminiService: the admission controller\<close>

text \<open>
  One call of \<open>createProcessBuffered(messages, model, isStream)\<close>. \<open>rid\<close> names the call, and
  the child process it spawns; it is not a value of the program.
\<close>

record call =
  rid :: nat
  messages :: jsval
  model :: jsval
  isStream :: jsval

text \<open>
  What the service does, in order: \<open>Queued r\<close> is the push of call \<open>r\<close>'s resolver on the wait
  list; \<open>Started r woken out\<close> is call \<open>r\<close> running the code after the admission test, where
  \<open>woken\<close> tells that it had been parked and was resumed by its resolver, and \<open>out\<close> is the
  argument vector of the process that \<open>spawn\<close> created, or the exception that \<open>_buildArgs\<close>
  or \<open>spawn\<close> threw instead.
\<close>

datatype effect =
    Queued nat
  | Started nat bool "js_error + jsval list"

text \<open>
  The singleton service (\<open>maxConcurrent\<close>, \<open>activeRequests\<close>, \<open>requestQueue\<close>) together with
  its surroundings: \<open>open_children\<close> are the spawned processes whose \<open>close\<close> event has not
  been emitted yet, \<open>effects\<close> is the log above. The counter is a JavaScript number that only
  ever moves by one, hence an \<open>int\<close>.
\<close>

record gateway =
  maxConcurrent :: int
  activeRequests :: int
  requestQueue :: "call list"
  open_children :: "nat list"
  effects :: "effect list"

definition init :: "int \<Rightarrow> gateway" where
  "init N = \<lparr>maxConcurrent = N, activeRequests = 0, requestQueue = [],
             open_children = [], effects = []\<rparr>"

text \<open>
  Node's \<open>spawn\<close> checks its arguments before it creates a process: a string argument that
  contains a NUL character makes it throw \<open>ERR_INVALID_ARG_VALUE\<close>. Every other failure to
  start the program is reported later, by the child's \<open>error\<close> event.
\<close>

definition spawn_throws :: "jsval list \<Rightarrow> bool" where
  "spawn_throws args =
     list_ex (\<lambda>a. case a of JStr s \<Rightarrow> CHR 0x00 \<in> set s | _ \<Rightarrow> False) args"

text \<open>
  The body of \<open>createProcessBuffered\<close> after the admission test: the counter is incremented,
  then the arguments are built, then the process is spawned and \<open>onFinish\<close> is registered on
  its \<open>close\<close> event. When \<open>_buildArgs\<close> or \<open>spawn\<close> throws, the exception leaves the
  function after the increment: no child exists and no listener is registered.
\<close>

definition admitted :: "bool \<Rightarrow> call \<Rightarrow> gateway \<Rightarrow> gateway" where
  "admitted woken c g =
     (let g1 = g\<lparr>activeRequests := activeRequests g + 1\<rparr> in
      case buildArgs (messages c) (model c) (isStream c) of
        Inl e \<Rightarrow> g1\<lparr>effects := effects g1 @ [Started (rid c) woken (Inl e)]\<rparr>
      | Inr args \<Rightarrow>
          if spawn_throws args
          then g1\<lparr>effects := effects g1 @ [Started (rid c) woken (Inl ERR_INVALID_ARG_VALUE)]\<rparr>
          else g1\<lparr>open_children := open_children g1 @ [rid c],
                  effects := effects g1 @ [Started (rid c) woken (Inr args)]\<rparr>)"

text \<open>
  \<open>createProcessBuffered\<close> up to its \<open>await\<close>: with no free slot the call parks its resolver
  at the end of \<open>requestQueue\<close>; otherwise it goes on at once.
\<close>

definition createProcessBuffered :: "call \<Rightarrow> gateway \<Rightarrow> gateway" where
  "createProcessBuffered c g =
     (if activeRequests g \<ge> maxConcurrent g
      then g\<lparr>requestQueue := requestQueue g @ [c], effects := effects g @ [Queued (rid c)]\<rparr>
      else admitted False c g)"

text \<open>
  \<open>onFinish\<close>, the listener of a child's \<open>close\<close> event. \<open>nextResolve()\<close> resolves the promise
  the parked call awaits; its continuation is a microtask, which the event loop runs before
  it delivers any other event, so the resumed call is part of the same step.
\<close>

definition onFinish :: "gateway \<Rightarrow> gateway" where
  "onFinish g =
     (let g1 = g\<lparr>activeRequests := activeRequests g - 1\<rparr> in
      if length (requestQueue g1) > 0
      then admitted True (hd (requestQueue g1)) (g1\<lparr>requestQueue := tl (requestQueue g1)\<rparr>)
      else g1)"

text \<open>
  The events the service reacts to. A child emits \<open>error\<close> and \<open>close\<close> only while it is open,
  and \<open>close\<close> once (Node's contract for child processes: \<open>close\<close> is emitted after \<open>exit\<close>, or
  after \<open>error\<close> when the process could not be spawned); \<open>step\<close> gives \<open>None\<close> for an event
  that cannot occur. The \<open>error\<close> listener the service registers has an empty body.
\<close>

datatype event = Request call | ChildError nat | ChildClose nat

fun step :: "event \<Rightarrow> gateway \<Rightarrow> gateway option" where
  "step (Request c) g = Some (createProcessBuffered c g)"
| "step (ChildError p) g = (if p \<in> set (open_children g) then Some g else None)"
| "step (ChildClose p) g =
     (if p \<in> set (open_children g)
      then Some (onFinish (g\<lparr>open_children := remove1 p (open_children g)\<rparr>))
      else None)"

fun run :: "event list \<Rightarrow> gateway \<Rightarrow> gateway option" where
  "run [] g = Some g"
| "run (e # es) g = (case step e g of None \<Rightarrow> None | Some g' \<Rightarrow> run es g')"

text \<open>Calls that took a slot and never got a child, and the slots accounted for.\<close>

fun is_leak :: "effect \<Rightarrow> bool" where
  "is_leak (Started r w (Inl e)) = True"
| "is_leak _ = False"

definition leaked :: "gateway \<Rightarrow> nat" where
  "leaked g = length (filter is_leak (effects g))"

text \<open>The calls that were parked, and the parked calls that were resumed, each in order.\<close>

fun queued_of :: "effect list \<Rightarrow> nat list" where
  "queued_of [] = []"
| "queued_of (Queued r # es) = r # queued_of es"
| "queued_of (e # es) = queued_of es"

fun woken_of :: "effect list \<Rightarrow> nat list" where
  "woken_of [] = []"
| "woken_of (Started r True out # es) = r # woken_of es"
| "woken_of (e # es) = woken_of es"

definition slots_held :: "gateway \<Rightarrow> int" where
  "slots_held g = int (length (open_children g)) + int (leaked g)"

definition fifo :: "gateway \<Rightarrow> bool" where
  "fifo g \<longleftrightarrow> queued_of (effects g) = woken_of (effects g) @ map rid (requestQueue g)"

text \<open>
  A call as the chat controller makes it for the body \<open>{"prompt": "Hi"}\<close> and the default
  model (see \<open>handleStandardChat\<close> below).
\<close>

definition chat_call :: "nat \<Rightarrow> call" where
  "chat_call k = \<lparr>rid = k, messages = JUndefined, model = JStr ''Hi'',
                   isStream = JStr ''gemini-2.5-flash-lite''\<rparr>"


section \<open>ChatController: from the request body to the service call\<close>

text \<open>An HTTP response sent with \<open>res.status(code).json(body)\<close>; \<open>res.json(body)\<close> has status 200.\<close>

datatype response = Response nat jsval

text \<open>
  What a handler does with a request body before any process exists: it throws (also when
  the template literal of the error message cannot convert the model to text), replies at
  once, or calls \<open>createProcessBuffered\<close> with the listed arguments.
\<close>

datatype dispatch = Reply response | Invoke "jsval list"

definition AVAILABLE_MODELS :: "string list" where
  "AVAILABLE_MODELS = [''gemini-2.5-flash-lite'', ''gemini-2.5-flash'']"

text \<open>
  \<open>handleStandardChat\<close> up to its call of the service (\<open>model'\<close> is the body's \<open>model\<close>
  field). \<open>default_model\<close> is \<open>config.gemini.DEFAULT_MODEL\<close>; a model of the list is an
  object whose \<open>id\<close> is one of the strings above, and \<open>m.id === selectedModel\<close> holds exactly
  for that string.
\<close>

definition handleStandardChat :: "string \<Rightarrow> jsval \<Rightarrow> js_error + dispatch" where
  \<open>handleStandardChat default_model body =
     (case get_prop body ''prompt'' of Inl e \<Rightarrow> Inl e | Inr prompt \<Rightarrow>
      case get_prop body ''system'' of Inl e \<Rightarrow> Inl e | Inr system \<Rightarrow>
      case get_prop body ''model'' of Inl e \<Rightarrow> Inl e | Inr model' \<Rightarrow>
        if \<not> truthy prompt \<or> js_typeof prompt \<noteq> ''string''
        then Inr (Reply (Response 400
               (JObj [(''error'', JStr ''Field "prompt" is required and must be a string'')])))
        else
          let selectedModel = js_or model' (JStr default_model);
              isModelValid = list_ex (\<lambda>m. JStr m = selectedModel) AVAILABLE_MODELS
          in if \<not> isModelValid
             then (case js_String selectedModel of
                     Inl e \<Rightarrow> Inl e
                   | Inr text \<Rightarrow>
                       Inr (Reply (Response 400
                         (JObj [(''error'', JStr (''Invalid model ID: '' @ [CHR 0x27]
                                   @ text @ [CHR 0x27] @ ''. Available models: ''
                                   @ js_join '', '' AVAILABLE_MODELS))]))))
             else Inr (Invoke [system, prompt, selectedModel, JBool False]))\<close>

text \<open>\<open>handleStreamChat\<close> up to its call of the service; the prompt only has to be truthy.\<close>

definition handleStreamChat :: "string \<Rightarrow> jsval \<Rightarrow> js_error + dispatch" where
  \<open>handleStreamChat default_model body =
     (case get_prop body ''prompt'' of Inl e \<Rightarrow> Inl e | Inr prompt \<Rightarrow>
      case get_prop body ''system'' of Inl e \<Rightarrow> Inl e | Inr system \<Rightarrow>
      case get_prop body ''model'' of Inl e \<Rightarrow> Inl e | Inr model' \<Rightarrow>
        if \<not> truthy prompt
        then Inr (Reply (Response 400 (JObj [(''error'', JStr ''Field "prompt" is required'')])))
        else
          let selectedModel = js_or model' (JStr default_model);
              isModelValid = list_ex (\<lambda>m. JStr m = selectedModel) AVAILABLE_MODELS
          in if \<not> isModelValid
             then (case js_String selectedModel of
                     Inl e \<Rightarrow> Inl e
                   | Inr text \<Rightarrow>
                       Inr (Reply (Response 400
                         (JObj [(''error'', JStr (''Invalid model ID: '' @ [CHR 0x27]
                                   @ text @ [CHR 0x27] @ ''.''))]))))
             else Inr (Invoke [system, prompt, selectedModel, JBool True]))\<close>

text \<open>
  Calling a function of three parameters: the parameters are bound to the arguments by
  position, a missing argument is \<open>undefined\<close>, and arguments beyond the third are dropped.
\<close>

definition arg :: "jsval list \<Rightarrow> nat \<Rightarrow> jsval" where
  "arg args i = (if i < length args then args ! i else JUndefined)"

definition bind_call :: "nat \<Rightarrow> jsval list \<Rightarrow> call" where
  "bind_call k args = \<lparr>rid = k, messages = arg args 0, model = arg args 1, isStream = arg args 2\<rparr>"

text \<open>The argument vector \<open>createProcessBuffered\<close> hands to \<open>spawn\<close> for a call.\<close>

definition spawn_argv :: "call \<Rightarrow> js_error + jsval list" where
  "spawn_argv c = buildArgs (messages c) (model c) (isStream c)"


section \<open>ChatController: the listeners on a spawned process\<close>

text \<open>
  A \<open>signal\<close> is one call of a listener the handler has registered, or a change of the child
  that no listener observes. \<open>OnError m\<close> is the call of the child's \<open>error\<close> listener with
  \<open>err.message = m\<close>; \<open>OnExit\<close> is the end of the process, for which no listener is
  registered; \<open>OnStdout\<close> and \<open>OnStderr\<close> carry \<open>chunk.toString()\<close>; \<open>OnClose code\<close> is the call
  of the child's \<open>close\<close> listener, the code being \<open>null\<close> (\<open>None\<close>) for a process ended by a
  signal; \<open>TimeoutElapsed\<close> says that \<open>TIMEOUT_MS\<close> have passed since the handler got the child;
  \<open>ClientGone\<close> is the call of the listener of the request's \<open>close\<close> event. Which of these
  calls really happen is decided by \<open>hears\<close> below.
\<close>

datatype signal =
    OnError string
  | OnExit
  | OnStdout string
  | OnStderr string
  | OnClose "int option"
  | TimeoutElapsed
  | ClientGone

text \<open>
  What happens around a request once its process has been asked for: the spawn fails, the
  process writes to its output or error stream, it exits, its streams are closed (the
  child's \<open>close\<close> event), the timeout elapses, or the client disconnects.
\<close>

datatype happening =
    SpawnFails string
  | Stdout string
  | Stderr string
  | Exits
  | Closes "int option"
  | Timeout
  | Disconnects

text \<open>
  What the handler's listeners hear of it. Both handlers register their listeners only
  after \<open>await geminiService.createProcessBuffered(...)\<close>, that is in a microtask after the
  call has returned the child.

  \<^item> Node emits the \<open>error\<close> of a failed spawn on \<open>process.nextTick\<close>. For a call that was
    admitted at once, \<open>spawn\<close> has run inside the handler's own synchronous part, and the
    tick comes before the microtask: only the service's empty \<open>error\<close> listener is there, and
    the handler never hears the error; all that is left of it is a child without a process
    (\<open>OnExit\<close>). For a call that had been parked (\<open>woken\<close>), \<open>spawn\<close>
    runs in the microtask that resumes the service call and the handler's continuation
    follows in the same run of microtasks, before the tick: the handler hears it.
  \<^item> Output, exit, the child's \<open>close\<close> and the timer come from later turns of the event
    loop and are heard.
  \<^item> The request's \<open>close\<close> event: on Node 16 and later (the image is built from
    \<open>node:20-slim\<close>) a request emits \<open>close\<close> once, when its body has been read, which is
    before the handler is resumed. The listener added afterwards by \<open>req.on('close', ...)\<close> is
    never called: a disconnect of the client emits nothing more on the request.
\<close>

fun hear :: "bool \<Rightarrow> happening \<Rightarrow> signal list" where
  "hear woken (SpawnFails m) = (if woken then [OnError m] else [OnExit])"
| "hear woken (Stdout chunk) = [OnStdout chunk]"
| "hear woken (Stderr chunk) = [OnStderr chunk]"
| "hear woken Exits = [OnExit]"
| "hear woken (Closes code) = [OnClose code]"
| "hear woken Timeout = [TimeoutElapsed]"
| "hear woken Disconnects = []"

definition hears :: "bool \<Rightarrow> happening list \<Rightarrow> signal list" where
  "hears woken hs = concat (map (hear woken) hs)"

text \<open>
  The child process as the handlers use it. \<open>child.kill()\<close> follows Node's \<open>ChildProcess.kill\<close>:
  with the process gone (ended, or never started) it does nothing; otherwise it delivers
  SIGTERM and sets \<open>child.killed\<close>.
\<close>

record child =
  gone :: bool
  killed :: bool
  sigterms :: nat

definition new_child :: child where
  "new_child = \<lparr>gone = False, killed = False, sigterms = 0\<rparr>"

definition child_kill :: "child \<Rightarrow> child" where
  "child_kill c = (if gone c then c else c\<lparr>killed := True, sigterms := sigterms c + 1\<rparr>)"

definition child_ended :: "child \<Rightarrow> child" where
  "child_ended c = c\<lparr>gone := True\<rparr>"

text \<open>
  \<open>String.prototype.trim\<close> on code units below 256: tab, line feed, vertical tab, form feed,
  carriage return, space and no-break space are removed from both ends.
\<close>

definition js_space :: "char \<Rightarrow> bool" where
  "js_space c \<longleftrightarrow>
     c \<in> {CHR 0x09, CHR 0x0A, CHR 0x0B, CHR 0x0C, CHR 0x0D, CHR 0x20, CHR 0xA0}"

definition trim :: "string \<Rightarrow> string" where
  "trim s = rev (dropWhile js_space (rev (dropWhile js_space s)))"


subsection \<open>The buffered path\<close>

text \<open>
  The variables of \<open>handleStandardChat\<close> after the service call (\<open>output'\<close> is its \<open>output\<close>),
  the timer, the response and the child. \<open>uncaught\<close> holds an exception thrown inside a
  listener; nothing catches it, and the handler does nothing more after it.
\<close>

record buffered =
  output' :: string
  errorOut :: string
  isTimedOut :: bool
  timer_pending :: bool
  headersSent :: bool
  sent :: "response list"
  proc :: child
  uncaught :: "js_error option"

definition buffered_init :: buffered where
  "buffered_init = \<lparr>output' = [], errorOut = [], isTimedOut = False, timer_pending = True,
                     headersSent = False, sent = [], proc = new_child, uncaught = None\<rparr>"

text \<open>
  Express' \<open>res.status(code).json(body)\<close>: it sends the response, and throws
  \<open>ERR_HTTP_HEADERS_SENT\<close> when one was sent before.
\<close>

definition res_json :: "nat \<Rightarrow> jsval \<Rightarrow> buffered \<Rightarrow> buffered" where
  "res_json code body s =
     (if headersSent s then s\<lparr>uncaught := Some ERR_HTTP_HEADERS_SENT\<rparr>
      else s\<lparr>headersSent := True, sent := sent s @ [Response code body]\<rparr>)"

definition spawn_failure :: "string \<Rightarrow> response" where
  "spawn_failure m =
     Response 500 (JObj [(''error'', JStr ''Failed to spawn CLI process''), (''details'', JStr m)])"

definition gateway_timeout :: response where
  "gateway_timeout =
     Response 504 (JObj [(''error'', JStr ''Gateway Timeout: Model took too long to respond'')])"

definition cli_error :: "string \<Rightarrow> response" where
  "cli_error details =
     Response 500 (JObj [(''status'', JStr ''error''), (''message'', JStr ''CLI execution failed''),
                         (''details'', JStr details)])"

definition success :: "jsval \<Rightarrow> string \<Rightarrow> response" where
  "success selectedModel text =
     Response 200 (JObj [(''status'', JStr ''success''), (''model'', selectedModel),
                         (''response'', JStr text)])"

fun send :: "response \<Rightarrow> buffered \<Rightarrow> buffered" where
  "send (Response code body) s = res_json code body s"

text \<open>The listener of the child's \<open>error\<close> event.\<close>

definition buffered_on_error :: "string \<Rightarrow> buffered \<Rightarrow> buffered" where
  "buffered_on_error m s = (if \<not> headersSent s then send (spawn_failure m) s else s)"

text \<open>The timer's callback.\<close>

definition buffered_on_timeout :: "buffered \<Rightarrow> buffered" where
  "buffered_on_timeout s =
     (let s1 = s\<lparr>isTimedOut := True, proc := child_kill (proc s)\<rparr>
      in if \<not> headersSent s1 then send gateway_timeout s1 else s1)"

text \<open>The listener of the child's \<open>close\<close> event.\<close>

definition buffered_on_close :: "jsval \<Rightarrow> int option \<Rightarrow> buffered \<Rightarrow> buffered" where
  "buffered_on_close selectedModel code s =
     (let s1 = s\<lparr>timer_pending := False\<rparr>
      in if isTimedOut s1 then s1
         else if code \<noteq> Some 0 then send (cli_error (errorOut s1)) s1
         else send (success selectedModel (trim (output' s1))) s1)"

text \<open>
  One signal on the buffered path: the bodies of the listeners. The timer fires once, and
  only while it has not been cleared; the request's \<open>close\<close> event has no listener here.
\<close>

definition buffered_step :: "jsval \<Rightarrow> signal \<Rightarrow> buffered \<Rightarrow> buffered" where
  "buffered_step sel ev s =
     (if uncaught s \<noteq> None then s
      else case ev of
        OnError m \<Rightarrow> buffered_on_error m (s\<lparr>proc := child_ended (proc s)\<rparr>)
      | OnExit \<Rightarrow> s\<lparr>proc := child_ended (proc s)\<rparr>
      | OnStdout chunk \<Rightarrow> s\<lparr>output' := output' s @ chunk\<rparr>
      | OnStderr chunk \<Rightarrow> s\<lparr>errorOut := errorOut s @ chunk\<rparr>
      | OnClose code \<Rightarrow> buffered_on_close sel code (s\<lparr>proc := child_ended (proc s)\<rparr>)
      | TimeoutElapsed \<Rightarrow>
          (if timer_pending s then buffered_on_timeout (s\<lparr>timer_pending := False\<rparr>) else s)
      | ClientGone \<Rightarrow> s)"

definition buffered_run :: "jsval \<Rightarrow> signal list \<Rightarrow> buffered" where
  "buffered_run sel evs = foldl (\<lambda>s ev. buffered_step sel ev s) buffered_init evs"

text \<open>
  The events other than \<open>error\<close>, \<open>close\<close> and the timer; then the text a sequence of events
  delivers on each stream.
\<close>

fun is_quiet :: "signal \<Rightarrow> bool" where
  "is_quiet (OnError m) = False"
| "is_quiet (OnClose code) = False"
| "is_quiet TimeoutElapsed = False"
| "is_quiet ev = True"

fun stdout_of :: "signal list \<Rightarrow> string" where
  "stdout_of [] = []"
| "stdout_of (OnStdout chunk # evs) = chunk @ stdout_of evs"
| "stdout_of (ev # evs) = stdout_of evs"

fun stderr_of :: "signal list \<Rightarrow> string" where
  "stderr_of [] = []"
| "stderr_of (OnStderr chunk # evs) = chunk @ stderr_of evs"
| "stderr_of (ev # evs) = stderr_of evs"


text \<open>The handler has neither responded nor timed out nor signalled its child.\<close>

definition untouched :: "buffered \<Rightarrow> bool" where
  "untouched s \<longleftrightarrow>
     \<not> isTimedOut s \<and> timer_pending s \<and> \<not> headersSent s \<and> sent s = [] \<and> uncaught s = None
     \<and> \<not> killed (proc s) \<and> sigterms (proc s) = 0"

text \<open>The timer has fired: the 504 is the response, and the child has had \<open>n\<close> signals.\<close>

definition timed_out :: "nat \<Rightarrow> buffered \<Rightarrow> bool" where
  "timed_out n s \<longleftrightarrow>
     isTimedOut s \<and> \<not> timer_pending s \<and> headersSent s \<and> uncaught s = None
     \<and> sent s = [gateway_timeout] \<and> sigterms (proc s) = n \<and> (killed (proc s) \<longleftrightarrow> n = 1)"

text \<open>The timer has not fired so far; an exception can only have come after it was cleared.\<close>

definition not_fired :: "buffered \<Rightarrow> bool" where
  "not_fired s \<longleftrightarrow>
     \<not> isTimedOut s \<and> gateway_timeout \<notin> set (sent s) \<and> sigterms (proc s) = 0
     \<and> (uncaught s \<noteq> None \<longrightarrow> \<not> timer_pending s)"

text \<open>The timer was cleared before it fired: no 504 was sent and no signal delivered.\<close>

definition timer_cleared :: "buffered \<Rightarrow> bool" where
  "timer_cleared s \<longleftrightarrow>
     \<not> timer_pending s \<and> gateway_timeout \<notin> set (sent s) \<and> sigterms (proc s) = 0"


subsection \<open>The streaming path\<close>

text \<open>
  The calls on the response object, in order. Node transmits what is written before
  \<open>res.end()\<close>; a write after it reaches nobody.
\<close>

datatype res_call = Write string | End

fun wire_of :: "res_call list \<Rightarrow> string list" where
  "wire_of [] = []"
| "wire_of (Write x # cs) = x # wire_of cs"
| "wire_of (End # cs) = []"

record streaming =
  buffer :: string
  res_calls :: "res_call list"
  sproc :: child

definition streaming_init :: streaming where
  "streaming_init = \<lparr>buffer = [], res_calls = [], sproc = new_child\<rparr>"

definition data_frame :: "string \<Rightarrow> string" where
  "data_frame line = ''data: '' @ line @ ''\<newline>\<newline>''"

definition done_frame :: string where
  "done_frame = ''event: done\<newline>data: [DONE]\<newline>\<newline>''"

definition error_frame :: "string \<Rightarrow> string" where
  \<open>error_frame m =
     ''event: error\<newline>data: {"message": "Failed to spawn process: '' @ m @ ''"}\<newline>\<newline>''\<close>

text \<open>\<open>buffer.indexOf('\n')\<close>, and the two uses of \<open>substring\<close>.\<close>

definition indexOf_newline :: "string \<Rightarrow> int" where
  "indexOf_newline s =
     (if CHR 0x0A \<in> set s then int (length (takeWhile (\<lambda>c. c \<noteq> CHR 0x0A) s)) else - 1)"

text \<open>
  The \<open>while\<close> loop of the \<open>stdout\<close> listener, on the buffer and the calls made so far: up to
  each line feed it cuts a line off the buffer, trims it, and writes it as a \<open>data\<close> frame
  unless it is empty.
\<close>

function relay :: "string \<Rightarrow> res_call list \<Rightarrow> string \<times> res_call list" where
  "relay buf calls =
     (let boundary = indexOf_newline buf in
      if boundary \<noteq> - 1
      then let line = trim (take (nat boundary) buf);
               buf' = drop (nat (boundary + 1)) buf
           in relay buf' (if line \<noteq> [] then calls @ [Write (data_frame line)] else calls)
      else (buf, calls))"
  by pat_completeness auto
termination
proof (relation "measure (\<lambda>(buf, calls). length buf)")
  show "wf (measure (\<lambda>(buf, calls). length buf))" by simp
next
  fix buf :: string and calls :: "res_call list" and boundary line buf'
  assume b: "boundary = indexOf_newline buf" "boundary \<noteq> - 1"
    and b': "buf' = drop (nat (boundary + 1)) buf"
  from b have "CHR 0x0A \<in> set buf"
    by (auto simp: indexOf_newline_def split: if_splits)
  then have "0 < length buf" by (rule length_pos_if_in_set)
  moreover from b have "0 \<le> boundary"
    by (auto simp: indexOf_newline_def split: if_splits)
  ultimately have "length buf' < length buf"
    unfolding b' by simp
  then show "((buf', if line \<noteq> [] then calls @ [Write (data_frame line)] else calls), buf, calls)
               \<in> measure (\<lambda>(buf, calls). length buf)"
    by simp
qed

declare relay.simps [simp del]

text \<open>The listeners of \<open>handleStreamChat\<close>.\<close>

definition stream_on_error :: "string \<Rightarrow> streaming \<Rightarrow> streaming" where
  "stream_on_error m s = s\<lparr>res_calls := res_calls s @ [Write (error_frame m), End]\<rparr>"

definition stream_on_stdout :: "string \<Rightarrow> streaming \<Rightarrow> streaming" where
  "stream_on_stdout chunk s =
     (case relay (buffer s @ chunk) (res_calls s) of
        (buf, calls) \<Rightarrow> s\<lparr>buffer := buf, res_calls := calls\<rparr>)"

definition stream_on_close :: "streaming \<Rightarrow> streaming" where
  "stream_on_close s = s\<lparr>res_calls := res_calls s @ [Write done_frame, End]\<rparr>"

definition stream_on_disconnect :: "streaming \<Rightarrow> streaming" where
  "stream_on_disconnect s =
     (if \<not> killed (sproc s) then s\<lparr>sproc := child_kill (sproc s)\<rparr> else s)"

text \<open>
  One signal on the streaming path: the bodies of the listeners. The handler sets no timer,
  and the \<open>stderr\<close> listener only logs to the console.
\<close>

fun stream_step :: "signal \<Rightarrow> streaming \<Rightarrow> streaming" where
  "stream_step (OnError m) s = stream_on_error m (s\<lparr>sproc := child_ended (sproc s)\<rparr>)"
| "stream_step OnExit s = s\<lparr>sproc := child_ended (sproc s)\<rparr>"
| "stream_step (OnStdout chunk) s = stream_on_stdout chunk s"
| "stream_step (OnStderr chunk) s = s"
| "stream_step (OnClose code) s = stream_on_close (s\<lparr>sproc := child_ended (sproc s)\<rparr>)"
| "stream_step TimeoutElapsed s = s"
| "stream_step ClientGone s = stream_on_disconnect s"

definition stream_run :: "signal list \<Rightarrow> streaming" where
  "stream_run evs = foldl (\<lambda>s ev. stream_step ev s) streaming_init evs"


subsection \<open>Lines of a byte stream\<close>

text \<open>
  The complete lines of a text, that is the pieces each ended by a line feed, and the
  partial content after the last line feed, by one pass over the text. \<open>lines_acc cur s\<close>
  reads \<open>s\<close> with \<open>cur\<close> the line begun so far.
\<close>

fun lines_acc :: "string \<Rightarrow> string \<Rightarrow> string list \<times> string" where
  "lines_acc cur [] = ([], cur)"
| "lines_acc cur (c # cs) =
     (if c = CHR 0x0A
      then (case lines_acc [] cs of (ls, r) \<Rightarrow> (cur # ls, r))
      else lines_acc (cur @ [c]) cs)"

definition complete_lines :: "string \<Rightarrow> string list" where
  "complete_lines s = fst (lines_acc [] s)"

definition trailing :: "string \<Rightarrow> string" where
  "trailing s = snd (lines_acc [] s)"

text \<open>The frames for a list of lines: each line trimmed, the empty ones left out.\<close>

definition frames :: "string list \<Rightarrow> res_call list" where
  "frames ls = map (\<lambda>l. Write (data_frame l)) (filter (\<lambda>l. l \<noteq> []) (map trim ls))"

text \<open>Events that end a streaming response, and those that do not.\<close>

fun ends_stream :: "signal \<Rightarrow> bool" where
  "ends_stream (OnError m) = True"
| "ends_stream (OnClose code) = True"
| "ends_stream ev = False"

definition keeps_open :: "signal \<Rightarrow> bool" where
  "keeps_open ev \<longleftrightarrow> \<not> ends_stream ev"

definition is_frame :: "string \<Rightarrow> bool" where
  "is_frame x \<longleftrightarrow> (\<exists>line. line \<noteq> [] \<and> x = data_frame line)"

section \<open>Properties of the argument builder\<close>

lemma render_msg_turn: "render_msg (js_of_turn t) = Inr (spec_turn t)"
  by (cases t, cases "fst t") (simp_all add: render_msg_def js_of_turn_def spec_turn_def)

lemma map_throwing_turns:
  "map_throwing render_msg (map js_of_turn conv) = Inr (map spec_turn conv)"
  by (induction conv) (simp_all add: render_msg_turn)

text \<open>
  C10, as the code has it. \<open>_buildArgs\<close> is a function of its arguments alone. For a
  conversation of role and content pairs it returns the prompt in which every turn carries
  its role label and the turns are joined by a blank line, then \<open>-m\<close> and the model, and
  \<open>-o stream-json\<close> exactly when streaming is requested (an omitted flag counts as not
  requested). An input that is not an array is turned into its text by \<open>String\<close>: a string
  is taken as it is, \<open>undefined\<close>, \<open>null\<close>, \<open>true\<close> and \<open>false\<close> give their names, an integral
  number its decimal numeral, and an object without an own \<open>toString\<close> property gives
  \<open>[object Object]\<close>.
\<close>

theorem buildArgs_flattens_conversation:
  "buildArgs (JArr (map js_of_turn conv)) (JStr m) (JBool streaming)
     = Inr ([JStr (spec_flatten conv), JStr ''-m'', JStr m] @ stream_flags streaming)
   \<and> buildArgs (JArr (map js_of_turn conv)) (JStr m) JUndefined
     = Inr [JStr (spec_flatten conv), JStr ''-m'', JStr m]
   \<and> buildArgs (JStr s) (JStr m) (JBool streaming)
     = Inr ([JStr s, JStr ''-m'', JStr m] @ stream_flags streaming)
   \<and> buildArgs JUndefined (JStr m) (JBool streaming)
     = Inr ([JStr ''undefined'', JStr ''-m'', JStr m] @ stream_flags streaming)
   \<and> buildArgs JNull (JStr m) (JBool streaming)
     = Inr ([JStr ''null'', JStr ''-m'', JStr m] @ stream_flags streaming)
   \<and> buildArgs (JBool b) (JStr m) (JBool streaming)
     = Inr ([JStr (if b then ''true'' else ''false''), JStr ''-m'', JStr m]
            @ stream_flags streaming)
   \<and> (\<bar>n\<bar> < 2 ^ 53 \<longrightarrow>
        buildArgs (JNum n) (JStr m) (JBool streaming)
          = Inr ([JStr (dec_int n), JStr ''-m'', JStr m] @ stream_flags streaming))
   \<and> (''toString'' \<notin> set (map fst ps) \<longrightarrow>
        buildArgs (JObj ps) (JStr m) (JBool streaming)
          = Inr ([JStr ''[object Object]'', JStr ''-m'', JStr m] @ stream_flags streaming))"
proof (intro conjI impI)
  show "buildArgs (JArr (map js_of_turn conv)) (JStr m) (JBool streaming)
          = Inr ([JStr (spec_flatten conv), JStr ''-m'', JStr m] @ stream_flags streaming)"
    by (simp add: buildArgs_def map_throwing_turns spec_flatten_def stream_flags_def)
  show "buildArgs (JArr (map js_of_turn conv)) (JStr m) JUndefined
          = Inr [JStr (spec_flatten conv), JStr ''-m'', JStr m]"
    by (simp add: buildArgs_def map_throwing_turns spec_flatten_def)
  show "buildArgs (JStr s) (JStr m) (JBool streaming)
          = Inr ([JStr s, JStr ''-m'', JStr m] @ stream_flags streaming)"
    by (simp add: buildArgs_def stream_flags_def)
  show "buildArgs JUndefined (JStr m) (JBool streaming)
          = Inr ([JStr ''undefined'', JStr ''-m'', JStr m] @ stream_flags streaming)"
    by (simp add: buildArgs_def stream_flags_def)
  show "buildArgs JNull (JStr m) (JBool streaming)
          = Inr ([JStr ''null'', JStr ''-m'', JStr m] @ stream_flags streaming)"
    by (simp add: buildArgs_def stream_flags_def)
  show "buildArgs (JBool b) (JStr m) (JBool streaming)
          = Inr ([JStr (if b then ''true'' else ''false''), JStr ''-m'', JStr m]
                 @ stream_flags streaming)"
    by (simp add: buildArgs_def stream_flags_def)
  show "buildArgs (JNum n) (JStr m) (JBool streaming)
          = Inr ([JStr (dec_int n), JStr ''-m'', JStr m] @ stream_flags streaming)"
    by (simp add: buildArgs_def stream_flags_def)
next
  assume "''toString'' \<notin> set (map fst ps)"
  then show "buildArgs (JObj ps) (JStr m) (JBool streaming)
          = Inr ([JStr ''[object Object]'', JStr ''-m'', JStr m] @ stream_flags streaming)"
    by (simp add: buildArgs_def stream_flags_def)
qed

theorem buildArgs_flattens_conversation_witness:
  "buildArgs (JArr [JObj [(''role'', JStr ''system''), (''content'', JStr ''Be brief'')],
                    JObj [(''role'', JStr ''user''), (''content'', JStr ''Hi'')]])
             (JStr ''gemini-2.5-flash-lite'') (JBool False)
     = Inr [JStr ''System Instruction: Be brief\<newline>\<newline>User: Hi'',
            JStr ''-m'', JStr ''gemini-2.5-flash-lite'']
   \<and> buildArgs (JStr ''Hi'') (JStr ''gemini-2.5-flash-lite'') (JBool True)
     = Inr [JStr ''Hi'', JStr ''-m'', JStr ''gemini-2.5-flash-lite'',
            JStr ''-o'', JStr ''stream-json'']
   \<and> \<bar>42 :: int\<bar> < 2 ^ 53
   \<and> buildArgs (JNum 42) (JStr ''gemini-2.5-flash-lite'') (JBool False)
     = Inr [JStr ''42'', JStr ''-m'', JStr ''gemini-2.5-flash-lite'']
   \<and> ''toString'' \<notin> set (map fst [(''text'', JStr ''Hi'')])
   \<and> buildArgs (JObj [(''text'', JStr ''Hi'')]) (JStr ''gemini-2.5-flash-lite'') (JBool False)
     = Inr [JStr ''[object Object]'', JStr ''-m'', JStr ''gemini-2.5-flash-lite'']"
  using buildArgs_flattens_conversation
          [of "[(System, ''Be brief''), (User, ''Hi'')]" "''gemini-2.5-flash-lite''" False
              "''Hi''" True 42 "[(''text'', JStr ''Hi'')]"]
        buildArgs_flattens_conversation
          [of "[]" "''gemini-2.5-flash-lite''" True "''Hi''" True 42 "[(''text'', JStr ''Hi'')]"]
  by (simp add: js_of_turn_def spec_flatten_def spec_turn_def stream_flags_def
                dec_int_def dec_nat.simps digit_char_def)

text \<open>
  C10, as stated, fails for one kind of input that is not an array: an object with an own
  \<open>toString\<close> property, as JSON can carry, has no text, and \<open>String\<close> throws.
\<close>

theorem object_with_own_toString_has_no_text:
  "\<not> is_array (JObj [(''toString'', JStr ''x'')])
   \<and> buildArgs (JObj [(''toString'', JStr ''x'')]) (JStr ''gemini-2.5-flash-lite'') (JBool False)
     = Inl TypeError"
  by (simp add: buildArgs_def is_array_def)

section \<open>Properties of the admission controller\<close>

lemma run_invariant:
  assumes "run evs g = Some g'" and "P g"
    and "\<And>e a b. P a \<Longrightarrow> step e a = Some b \<Longrightarrow> P b"
  shows "P g'"
  using assms(1,2)
proof (induction evs arbitrary: g)
  case Nil
  then show ?case by simp
next
  case (Cons e es)
  then show ?case by (auto split: option.splits intro: assms(3))
qed

lemma admitted_fields:
  "maxConcurrent (admitted w c g) = maxConcurrent g"
  "activeRequests (admitted w c g) = activeRequests g + 1"
  "requestQueue (admitted w c g) = requestQueue g"
  by (simp_all add: admitted_def Let_def split: sum.splits if_splits)

lemma onFinish_maxConcurrent: "maxConcurrent (onFinish g) = maxConcurrent g"
  by (simp add: onFinish_def Let_def admitted_fields)

lemma onFinish_activeRequests:
  "activeRequests (onFinish g) = (if requestQueue g = [] then activeRequests g - 1 else activeRequests g)"
  by (simp add: onFinish_def Let_def admitted_fields)

lemma createProcessBuffered_maxConcurrent:
  "maxConcurrent (createProcessBuffered c g) = maxConcurrent g"
  by (simp add: createProcessBuffered_def admitted_fields)

lemma createProcessBuffered_activeRequests:
  "activeRequests (createProcessBuffered c g)
     = (if activeRequests g \<ge> maxConcurrent g then activeRequests g else activeRequests g + 1)"
  by (simp add: createProcessBuffered_def admitted_fields)

lemma step_maxConcurrent: "step e a = Some b \<Longrightarrow> maxConcurrent b = maxConcurrent a"
proof (cases e)
  case (Request c)
  assume "step e a = Some b"
  with Request show ?thesis by (auto simp: createProcessBuffered_maxConcurrent)
next
  case (ChildError p)
  assume "step e a = Some b"
  with ChildError show ?thesis by (simp split: if_splits)
next
  case (ChildClose p)
  assume "step e a = Some b"
  with ChildClose show ?thesis by (auto simp: onFinish_maxConcurrent split: if_splits)
qed

lemma step_bound:
  assumes "step e a = Some b" and "activeRequests a \<le> maxConcurrent a"
  shows "activeRequests b \<le> maxConcurrent a"
proof (cases e)
  case (Request c)
  with assms show ?thesis by (auto simp: createProcessBuffered_activeRequests)
next
  case (ChildError p)
  with assms show ?thesis by (simp split: if_splits)
next
  case (ChildClose p)
  with assms show ?thesis by (auto simp: onFinish_activeRequests split: if_splits)
qed


lemma admitted_slots_held: "slots_held (admitted w c g) = slots_held g + 1"
  by (simp add: admitted_def Let_def leaked_def slots_held_def split: sum.splits if_splits)

lemma createProcessBuffered_slots_held:
  "slots_held (createProcessBuffered c g)
     = (if activeRequests g \<ge> maxConcurrent g then slots_held g else slots_held g + 1)"
  by (simp add: createProcessBuffered_def admitted_slots_held)
     (simp add: slots_held_def leaked_def)

lemma onFinish_slots_held:
  "slots_held (onFinish g) = (if requestQueue g = [] then slots_held g else slots_held g + 1)"
  by (simp add: onFinish_def Let_def admitted_slots_held)
     (simp add: slots_held_def leaked_def)

lemma remove1_slots_held:
  "p \<in> set (open_children g) \<Longrightarrow>
     slots_held (g\<lparr>open_children := remove1 p (open_children g)\<rparr>) = slots_held g - 1"
proof -
  assume "p \<in> set (open_children g)"
  then have "length (open_children g) > 0" by (rule length_pos_if_in_set)
  moreover have "length (remove1 p (open_children g)) = length (open_children g) - 1"
    using \<open>p \<in> set (open_children g)\<close> by (simp add: length_remove1)
  ultimately have "int (length (remove1 p (open_children g))) = int (length (open_children g)) - 1"
    by linarith
  then show ?thesis by (simp add: slots_held_def leaked_def)
qed

lemma step_conserves:
  assumes "step e a = Some b" and "activeRequests a = slots_held a"
  shows "activeRequests b = slots_held b"
proof (cases e)
  case (Request c)
  with assms show ?thesis
    by (auto simp: createProcessBuffered_activeRequests createProcessBuffered_slots_held)
next
  case (ChildError p)
  with assms show ?thesis by (simp split: if_splits)
next
  case (ChildClose p)
  with assms have mem: "p \<in> set (open_children a)"
    and b: "b = onFinish (a\<lparr>open_children := remove1 p (open_children a)\<rparr>)"
    by (auto split: if_splits)
  show ?thesis
    unfolding b using assms(2) remove1_slots_held [OF mem]
    by (simp add: onFinish_activeRequests onFinish_slots_held)
qed

lemma queued_of_append: "queued_of (xs @ ys) = queued_of xs @ queued_of ys"
  by (induction xs rule: queued_of.induct) simp_all

lemma woken_of_append: "woken_of (xs @ ys) = woken_of xs @ woken_of ys"
  by (induction xs rule: woken_of.induct) simp_all

lemma admitted_effects:
  "\<exists>out. effects (admitted w c g) = effects g @ [Started (rid c) w out]"
  by (simp add: admitted_def Let_def split: sum.splits if_splits)

lemma step_fifo:
  assumes "step e a = Some b" and "fifo a"
  shows "fifo b"
proof (cases e)
  case (Request c)
  obtain out where "effects (admitted False c a) = effects a @ [Started (rid c) False out]"
    using admitted_effects by blast
  with Request assms show ?thesis
    by (auto simp: fifo_def createProcessBuffered_def admitted_fields queued_of_append woken_of_append)
next
  case (ChildError p)
  with assms show ?thesis by (simp split: if_splits)
next
  case (ChildClose p)
  let ?a1 = "a\<lparr>open_children := remove1 p (open_children a)\<rparr>"
  from ChildClose assms have b: "b = onFinish ?a1" by (auto split: if_splits)
  show ?thesis
  proof (cases "requestQueue a")
    case Nil
    then show ?thesis using assms(2) unfolding b by (simp add: fifo_def onFinish_def Let_def)
  next
    case (Cons c q)
    let ?a2 = "?a1\<lparr>activeRequests := activeRequests a - 1, requestQueue := q\<rparr>"
    have b2: "b = admitted True c ?a2" unfolding b using Cons by (simp add: onFinish_def Let_def)
    obtain out where "effects (admitted True c ?a2) = effects ?a2 @ [Started (rid c) True out]"
      using admitted_effects by blast
    then show ?thesis using assms(2) Cons unfolding b2
      by (simp add: fifo_def admitted_fields queued_of_append woken_of_append)
  qed
qed


lemma init_fields:
  "maxConcurrent (init N) = N" "activeRequests (init N) = 0" "slots_held (init N) = 0"
  "fifo (init N)"
  by (simp_all add: init_def slots_held_def leaked_def fifo_def)

text \<open>
  Slot accounting: the counter is the number of open children plus the number of calls that
  threw after taking their slot. Every slot taken by a call that did spawn is given back at
  that child's \<open>close\<close>, once.
\<close>

lemma slots_conserved:
  assumes "run evs (init N) = Some g"
  shows "activeRequests g = int (length (open_children g)) + int (leaked g)"
proof -
  have "activeRequests g = slots_held g"
    by (rule run_invariant [OF assms, where P = "\<lambda>a. activeRequests a = slots_held a"])
       (simp_all add: init_fields step_conserves)
  then show ?thesis by (simp add: slots_held_def)
qed

lemma limit_respected:
  assumes "0 \<le> N" and "run evs (init N) = Some g"
  shows "maxConcurrent g = N \<and> activeRequests g \<le> N"
proof (rule run_invariant [OF assms(2), where P = "\<lambda>a. maxConcurrent a = N \<and> activeRequests a \<le> N"])
  show "maxConcurrent (init N) = N \<and> activeRequests (init N) \<le> N"
    using assms(1) by (simp add: init_fields)
next
  fix e a b
  assume "maxConcurrent a = N \<and> activeRequests a \<le> N" and "step e a = Some b"
  then show "maxConcurrent b = N \<and> activeRequests b \<le> N"
    using step_maxConcurrent [of e a b] step_bound [of e a b] by simp
qed

text \<open>
  C1. For a limit \<open>N \<ge> 0\<close> and every sequence of requests, child errors and child closes,
  the counter \<open>activeRequests\<close> never exceeds \<open>N\<close>, and neither does the number of processes
  that are spawned and not yet closed.
\<close>

theorem active_requests_bounded:
  assumes "0 \<le> N" and "run evs (init N) = Some g"
  shows "activeRequests g \<le> N \<and> int (length (open_children g)) \<le> N"
  using limit_respected [OF assms] slots_conserved [OF assms(2)] by simp

text \<open>
  C4. Parked calls are resumed in the order in which they were parked: at every moment the
  calls parked so far are the calls resumed so far, in the same order, followed by the calls
  still waiting. So the \<open>i\<close>-th call to be parked is the \<open>i\<close>-th to be resumed, and of two
  parked calls the earlier one is started first. A resumed call starts in the step that
  resumes it, before any later arrival is looked at.
\<close>

theorem waiters_granted_fifo:
  assumes "run evs (init N) = Some g"
  shows "queued_of (effects g) = woken_of (effects g) @ map rid (requestQueue g)
       \<and> (\<forall>i j. i < j \<longrightarrow> j < length (woken_of (effects g)) \<longrightarrow>
              woken_of (effects g) ! i = queued_of (effects g) ! i
            \<and> woken_of (effects g) ! j = queued_of (effects g) ! j)"
proof -
  have "fifo g"
    by (rule run_invariant [OF assms, where P = fifo]) (simp_all add: init_fields step_fifo)
  then have eq: "queued_of (effects g) = woken_of (effects g) @ map rid (requestQueue g)"
    by (simp add: fifo_def)
  show ?thesis
  proof (intro conjI allI impI)
    show "queued_of (effects g) = woken_of (effects g) @ map rid (requestQueue g)" by (rule eq)
  next
    fix i j :: nat
    assume "i < j" and "j < length (woken_of (effects g))"
    then show "woken_of (effects g) ! i = queued_of (effects g) ! i"
      by (simp add: eq nth_append)
  next
    fix i j :: nat
    assume "i < j" and "j < length (woken_of (effects g))"
    then show "woken_of (effects g) ! j = queued_of (effects g) ! j"
      by (simp add: eq nth_append)
  qed
qed


lemmas gateway_eval =
  init_def createProcessBuffered_def admitted_def onFinish_def buildArgs_def chat_call_def
  spawn_throws_def Let_def

theorem active_requests_bounded_witness:
  "(0::int) \<le> 2
   \<and> (\<exists>g. run [Request (chat_call 1), Request (chat_call 2), Request (chat_call 3),
               ChildClose 1, Request (chat_call 4)] (init 2) = Some g
          \<and> activeRequests g = 2 \<and> open_children g = [2, 3]
          \<and> activeRequests g \<le> 2 \<and> int (length (open_children g)) \<le> 2)"
proof -
  obtain g where g: "run [Request (chat_call 1), Request (chat_call 2), Request (chat_call 3),
               ChildClose 1, Request (chat_call 4)] (init 2) = Some g"
    and v: "activeRequests g = 2" "open_children g = [2, 3]"
    by (simp add: gateway_eval)
  from active_requests_bounded [OF _ g] v g show ?thesis by simp
qed

theorem waiters_granted_fifo_witness:
  "\<exists>g. run [Request (chat_call 1), Request (chat_call 2), Request (chat_call 3),
            ChildClose 1, Request (chat_call 4)] (init 2) = Some g
      \<and> effects g = [Started 1 False (spawn_argv (chat_call 1)),
                       Started 2 False (spawn_argv (chat_call 2)),
                       Queued 3,
                       Started 3 True (spawn_argv (chat_call 3)),
                       Queued 4]
      \<and> queued_of (effects g) = [3, 4] \<and> woken_of (effects g) = [3]
      \<and> map rid (requestQueue g) = [4]
      \<and> queued_of (effects g) = woken_of (effects g) @ map rid (requestQueue g)"
proof -
  obtain g where g: "run [Request (chat_call 1), Request (chat_call 2), Request (chat_call 3),
               ChildClose 1, Request (chat_call 4)] (init 2) = Some g"
    and v: "queued_of (effects g) = [3, 4]" "woken_of (effects g) = [3]"
      "map rid (requestQueue g) = [4]"
      "effects g = [Started 1 False (spawn_argv (chat_call 1)),
                    Started 2 False (spawn_argv (chat_call 2)),
                    Queued 3,
                    Started 3 True (spawn_argv (chat_call 3)),
                    Queued 4]"
    by (simp add: gateway_eval spawn_argv_def)
  from waiters_granted_fifo [OF g] v g show ?thesis by simp
qed

text \<open>
  The body \<open>{"prompt": "hi", "system": [null]}\<close> passes the checks of \<open>handleStandardChat\<close>,
  which then calls the service with \<open>messages = [null]\<close>.
\<close>

lemma null_system_reaches_service:
  "handleStandardChat ''gemini-2.5-flash-lite''
       (JObj [(''prompt'', JStr ''hi''), (''system'', JArr [JNull])])
     = Inr (Invoke [JArr [JNull], JStr ''hi'', JStr ''gemini-2.5-flash-lite'', JBool False])
   \<and> bind_call 1 [JArr [JNull], JStr ''hi'', JStr ''gemini-2.5-flash-lite'', JBool False]
     = \<lparr>rid = 1, messages = JArr [JNull], model = JStr ''hi'',
          isStream = JStr ''gemini-2.5-flash-lite''\<rparr>"
  by (simp add: handleStandardChat_def js_or_def AVAILABLE_MODELS_def bind_call_def arg_def)

text \<open>
  C2. With a limit of one, a call whose \<open>messages\<close> is the array \<open>[null]\<close> takes the slot and
  then throws in \<open>_buildArgs\<close>: the counter stays at one with no child open, so no \<open>close\<close>
  event can ever release the slot, and the next call is parked behind it.
\<close>

theorem slot_leaks_when_buildArgs_throws:
  "run [Request \<lparr>rid = 1, messages = JArr [JNull], model = JStr ''hi'',
                 isStream = JStr ''gemini-2.5-flash-lite''\<rparr>,
        Request (chat_call 2)] (init 1)
   = Some \<lparr>maxConcurrent = 1, activeRequests = 1, requestQueue = [chat_call 2],
           open_children = [],
           effects = [Started 1 False (Inl TypeError), Queued 2]\<rparr>"
  by (simp add: init_def createProcessBuffered_def admitted_def buildArgs_def render_msg_def
                chat_call_def)

text \<open>
  The same slot is lost when \<open>spawn\<close> itself throws, as it does for a prompt that contains a
  NUL character: the increment has been made and no child exists.
\<close>

lemma slot_leaks_when_spawn_throws:
  "run [Request \<lparr>rid = 1, messages = JUndefined, model = JStr [CHR ''a'', CHR 0x00, CHR ''b''],
                 isStream = JStr ''gemini-2.5-flash-lite''\<rparr>] (init 1)
   = Some \<lparr>maxConcurrent = 1, activeRequests = 1, requestQueue = [],
           open_children = [],
           effects = [Started 1 False (Inl ERR_INVALID_ARG_VALUE)]\<rparr>"
  by (simp add: init_def createProcessBuffered_def admitted_def buildArgs_def spawn_throws_def)


section \<open>Properties of the controller's call of the service\<close>

lemma handleStandardChat_Invoke:
  assumes "handleStandardChat dm body = Inr (Invoke args)"
  shows "\<exists>sys p sel. get_prop body ''system'' = Inr sys \<and> get_prop body ''prompt'' = Inr p
           \<and> truthy sel \<and> args = [sys, p, sel, JBool False]"
  using assms
  by (auto simp: handleStandardChat_def Let_def js_or_def AVAILABLE_MODELS_def
           split: sum.splits if_splits)

lemma handleStreamChat_Invoke:
  assumes "handleStreamChat dm body = Inr (Invoke args)"
  shows "\<exists>sys p sel. get_prop body ''system'' = Inr sys \<and> get_prop body ''prompt'' = Inr p
           \<and> truthy sel \<and> args = [sys, p, sel, JBool True]"
  using assms
  by (auto simp: handleStreamChat_def Let_def js_or_def AVAILABLE_MODELS_def
           split: sum.splits if_splits)

lemma bind_call_four:
  "messages (bind_call k [a, b, c, d]) = a"
  "model (bind_call k [a, b, c, d]) = b"
  "isStream (bind_call k [a, b, c, d]) = c"
  by (simp_all add: bind_call_def arg_def)

lemma truthy_not_undefined: "truthy v \<Longrightarrow> v \<noteq> JUndefined"
  by auto

lemma buildArgs_truthy_flag:
  assumes "truthy sel" and "buildArgs sys p sel = Inr argv"
  shows "drop 1 argv = [JStr ''-m'', p, JStr ''-o'', JStr ''stream-json'']"
  using assms truthy_not_undefined [OF assms(1)]
  by (auto simp: buildArgs_def Let_def split: sum.splits jsval.splits)

lemma buildArgs_string_prompt:
  assumes "truthy sel"
  shows "buildArgs (JStr s) p sel = Inr [JStr s, JStr ''-m'', p, JStr ''-o'', JStr ''stream-json'']"
    and "buildArgs JUndefined p sel
           = Inr [JStr ''undefined'', JStr ''-m'', p, JStr ''-o'', JStr ''stream-json'']"
  using assms truthy_not_undefined [OF assms]
  by (simp_all add: buildArgs_def)

text \<open>
  C5. Whenever either chat handler calls the service, it passes \<open>(system, prompt,
  selectedModel, flag)\<close> to parameters \<open>(messages, model, isStream)\<close>. So \<open>messages\<close> is the
  body's \<open>system\<close> field, \<open>model\<close> is the prompt and \<open>isStream\<close> is the model id, a non-empty
  string. The argument vector therefore starts with the system text (with \<open>undefined\<close> when
  the field is absent), has the prompt after \<open>-m\<close>, and ends with \<open>-o stream-json\<close> on both
  paths.
\<close>

theorem controller_passes_system_as_messages:
  assumes "handleStandardChat dm body = Inr (Invoke args)
         \<or> handleStreamChat dm body = Inr (Invoke args)"
  shows "\<exists>sys p sel.
           get_prop body ''system'' = Inr sys \<and> get_prop body ''prompt'' = Inr p
         \<and> messages (bind_call k args) = sys \<and> model (bind_call k args) = p
         \<and> isStream (bind_call k args) = sel \<and> truthy sel
         \<and> (\<forall>s. sys = JStr s \<longrightarrow>
                spawn_argv (bind_call k args)
                  = Inr [JStr s, JStr ''-m'', p, JStr ''-o'', JStr ''stream-json''])
         \<and> (sys = JUndefined \<longrightarrow>
                spawn_argv (bind_call k args)
                  = Inr [JStr ''undefined'', JStr ''-m'', p, JStr ''-o'', JStr ''stream-json''])
         \<and> (\<forall>argv. spawn_argv (bind_call k args) = Inr argv \<longrightarrow>
                drop 1 argv = [JStr ''-m'', p, JStr ''-o'', JStr ''stream-json''])"
proof -
  from assms obtain sys p sel flag where
    sys: "get_prop body ''system'' = Inr sys" and p: "get_prop body ''prompt'' = Inr p"
    and sel: "truthy sel" and args: "args = [sys, p, sel, JBool flag]"
    using handleStandardChat_Invoke handleStreamChat_Invoke by blast
  have argv: "spawn_argv (bind_call k args) = buildArgs sys p sel"
    by (simp add: spawn_argv_def args bind_call_four)
  show ?thesis
  proof (intro exI conjI allI impI)
    show "get_prop body ''system'' = Inr sys" by (rule sys)
    show "get_prop body ''prompt'' = Inr p" by (rule p)
    show "messages (bind_call k args) = sys" by (simp add: args bind_call_four)
    show "model (bind_call k args) = p" by (simp add: args bind_call_four)
    show "isStream (bind_call k args) = sel" by (simp add: args bind_call_four)
    show "truthy sel" by (rule sel)
  next
    fix s assume "sys = JStr s"
    then show "spawn_argv (bind_call k args)
                 = Inr [JStr s, JStr ''-m'', p, JStr ''-o'', JStr ''stream-json'']"
      by (simp add: argv buildArgs_string_prompt [OF sel])
  next
    assume "sys = JUndefined"
    then show "spawn_argv (bind_call k args)
                 = Inr [JStr ''undefined'', JStr ''-m'', p, JStr ''-o'', JStr ''stream-json'']"
      by (simp add: argv buildArgs_string_prompt [OF sel])
  next
    fix argv assume "spawn_argv (bind_call k args) = Inr argv"
    then show "drop 1 argv = [JStr ''-m'', p, JStr ''-o'', JStr ''stream-json'']"
      using buildArgs_truthy_flag [OF sel] by (simp add: argv)
  qed
qed

theorem controller_passes_system_as_messages_witness:
  "handleStandardChat ''gemini-2.5-flash-lite''
       (JObj [(''prompt'', JStr ''Hi''), (''system'', JStr ''Be brief'')])
     = Inr (Invoke [JStr ''Be brief'', JStr ''Hi'', JStr ''gemini-2.5-flash-lite'', JBool False])
   \<and> spawn_argv (bind_call 1
         [JStr ''Be brief'', JStr ''Hi'', JStr ''gemini-2.5-flash-lite'', JBool False])
     = Inr [JStr ''Be brief'', JStr ''-m'', JStr ''Hi'', JStr ''-o'', JStr ''stream-json'']
   \<and> handleStreamChat ''gemini-2.5-flash-lite'' (JObj [(''prompt'', JStr ''Hi'')])
     = Inr (Invoke [JUndefined, JStr ''Hi'', JStr ''gemini-2.5-flash-lite'', JBool True])
   \<and> spawn_argv (bind_call 2
         [JUndefined, JStr ''Hi'', JStr ''gemini-2.5-flash-lite'', JBool True])
     = Inr [JStr ''undefined'', JStr ''-m'', JStr ''Hi'', JStr ''-o'', JStr ''stream-json'']"
proof -
  have std: "handleStandardChat ''gemini-2.5-flash-lite''
       (JObj [(''prompt'', JStr ''Hi''), (''system'', JStr ''Be brief'')])
     = Inr (Invoke [JStr ''Be brief'', JStr ''Hi'', JStr ''gemini-2.5-flash-lite'', JBool False])"
    by (simp add: handleStandardChat_def js_or_def AVAILABLE_MODELS_def)
  have str: "handleStreamChat ''gemini-2.5-flash-lite'' (JObj [(''prompt'', JStr ''Hi'')])
     = Inr (Invoke [JUndefined, JStr ''Hi'', JStr ''gemini-2.5-flash-lite'', JBool True])"
    by (simp add: handleStreamChat_def js_or_def AVAILABLE_MODELS_def)
  from controller_passes_system_as_messages [OF disjI1, OF std, of 1]
       controller_passes_system_as_messages [OF disjI2, OF str, of 2]
       std str
  show ?thesis by auto
qed


section \<open>Properties of the buffered path\<close>

lemma buffered_run_snoc:
  "buffered_run sel (evs @ [ev]) = buffered_step sel ev (buffered_run sel evs)"
  by (simp add: buffered_run_def)

lemma buffered_run_invariant:
  assumes "P (buffered_run sel evs)" and "\<And>s ev. P s \<Longrightarrow> P (buffered_step sel ev s)"
  shows "P (buffered_run sel (evs @ rest))"
proof (induction rest rule: rev_induct)
  case Nil
  show ?case using assms(1) by simp
next
  case (snoc ev rest)
  have "buffered_run sel (evs @ rest @ [ev]) = buffered_step sel ev (buffered_run sel (evs @ rest))"
    by (simp add: buffered_run_def)
  with snoc show ?case by (simp add: assms(2))
qed

lemma quiet_step:
  assumes "is_quiet ev" and "untouched s"
  shows "untouched (buffered_step sel ev s)"
    and "output' (buffered_step sel ev s) = output' s @ stdout_of [ev]"
    and "errorOut (buffered_step sel ev s) = errorOut s @ stderr_of [ev]"
  using assms by (cases ev; simp add: buffered_step_def untouched_def child_ended_def)+

lemma quiet_step_alive:
  assumes "is_quiet ev" and "ev \<noteq> OnExit" and "uncaught s = None"
  shows "gone (proc (buffered_step sel ev s)) = gone (proc s)"
  using assms by (cases ev) (simp_all add: buffered_step_def)

lemma stdout_of_append: "stdout_of (xs @ ys) = stdout_of xs @ stdout_of ys"
  by (induction xs rule: stdout_of.induct) simp_all

lemma stderr_of_append: "stderr_of (xs @ ys) = stderr_of xs @ stderr_of ys"
  by (induction xs rule: stderr_of.induct) simp_all

lemma quiet_run:
  assumes "list_all is_quiet pre"
  shows "untouched (buffered_run sel pre)
       \<and> output' (buffered_run sel pre) = stdout_of pre
       \<and> errorOut (buffered_run sel pre) = stderr_of pre"
  using assms
proof (induction pre rule: rev_induct)
  case Nil
  show ?case by (simp add: buffered_run_def buffered_init_def untouched_def new_child_def)
next
  case (snoc ev pre)
  then have q: "is_quiet ev" and u: "untouched (buffered_run sel pre)"
    and o: "output' (buffered_run sel pre) = stdout_of pre"
    and e: "errorOut (buffered_run sel pre) = stderr_of pre"
    by simp_all
  show ?case
    unfolding buffered_run_snoc
    using quiet_step [OF q u, of sel] o e
    by (simp add: stdout_of_append stderr_of_append)
qed

lemma quiet_run_alive:
  assumes "list_all is_quiet pre" and "OnExit \<notin> set pre"
  shows "\<not> gone (proc (buffered_run sel pre))"
  using assms
proof (induction pre rule: rev_induct)
  case Nil
  show ?case by (simp add: buffered_run_def buffered_init_def new_child_def)
next
  case (snoc ev pre)
  then have q: "is_quiet ev" "ev \<noteq> OnExit" and pre: "list_all is_quiet pre" "OnExit \<notin> set pre"
    by auto
  from pre(1) have "uncaught (buffered_run sel pre) = None"
    using quiet_run [of pre sel] by (simp add: untouched_def)
  then show ?case
    unfolding buffered_run_snoc using quiet_step_alive [OF q] snoc.IH [OF pre] by simp
qed

text \<open>
  With no timeout and no earlier error or close, the \<open>close\<close> listener answers by the exit
  code: code 0 sends the success response whose text is the trimmed standard output
  collected so far; any other code (or none) sends the CLI failure whose details are the
  collected standard error.
\<close>

lemma buffered_result_by_exit_code:
  assumes "list_all is_quiet pre"
  shows "sent (buffered_run sel (pre @ [OnClose (Some 0)]))
           = [success sel (trim (stdout_of pre))]
       \<and> (code \<noteq> Some 0 \<longrightarrow>
            sent (buffered_run sel (pre @ [OnClose code])) = [cli_error (stderr_of pre)])"
proof -
  let ?s = "buffered_run sel pre"
  from quiet_run [OF assms, of sel] have u: "untouched ?s"
    and o: "output' ?s = stdout_of pre" and e: "errorOut ?s = stderr_of pre"
    by simp_all
  from u have f: "uncaught ?s = None" "\<not> isTimedOut ?s" "\<not> headersSent ?s" "sent ?s = []"
    by (simp_all add: untouched_def)
  have ok: "sent (buffered_step sel (OnClose (Some 0)) ?s) = [success sel (trim (stdout_of pre))]"
    using f o by (simp add: buffered_step_def buffered_on_close_def success_def res_json_def)
  have bad: "sent (buffered_step sel (OnClose code) ?s) = [cli_error (stderr_of pre)]"
    if "code \<noteq> Some 0"
    using f e that by (simp add: buffered_step_def buffered_on_close_def cli_error_def res_json_def)
  show ?thesis
    unfolding buffered_run_snoc using ok bad by simp
qed

text \<open>
  C6. The spawn failure of a request that was admitted at once: the \<open>error\<close> is emitted
  before the handler has registered its listener, so the handler hears only the \<open>close\<close>,
  with a code other than 0, and answers with the CLI failure and empty details. No spawn
  failure response, and no message of the operating system, is sent.
\<close>

theorem spawn_failure_of_fresh_request_unheard:
  "hears False [SpawnFails ''spawn gemini ENOENT'', Closes (Some (- 2))]
     = [OnExit, OnClose (Some (- 2))]
   \<and> sent (buffered_run (JStr ''gemini-2.5-flash-lite'')
        (hears False [SpawnFails ''spawn gemini ENOENT'', Closes (Some (- 2))]))
     = [cli_error []]
   \<and> spawn_failure ''spawn gemini ENOENT''
       \<notin> set (sent (buffered_run (JStr ''gemini-2.5-flash-lite'')
                (hears False [SpawnFails ''spawn gemini ENOENT'', Closes (Some (- 2))])))"
  by (simp add: hears_def buffered_run_def buffered_step_def buffered_init_def
                buffered_on_close_def cli_error_def spawn_failure_def res_json_def
                child_ended_def new_child_def Let_def)

text \<open>
  A request that had been parked does hear the \<open>error\<close> and answers with the spawn failure.
\<close>

lemma spawn_failure_of_woken_request_heard:
  "sent (buffered_run sel (hears True [SpawnFails m])) = [spawn_failure m]"
  by (simp add: hears_def buffered_run_def buffered_step_def buffered_init_def
                buffered_on_error_def spawn_failure_def res_json_def)

text \<open>
  The \<open>close\<close> listener has no \<open>headersSent\<close> test: for such a request the \<open>close\<close> that
  follows the \<open>error\<close> calls \<open>res.json\<close> a second time, which throws, the spawn failure
  remaining the only response.
\<close>

lemma close_after_spawn_error_throws:
  "uncaught (buffered_run sel (hears True [SpawnFails m, Closes code]))
     = Some ERR_HTTP_HEADERS_SENT
   \<and> sent (buffered_run sel (hears True [SpawnFails m, Closes code])) = [spawn_failure m]"
  by (simp add: hears_def buffered_run_def buffered_step_def buffered_init_def
                buffered_on_error_def buffered_on_close_def spawn_failure_def cli_error_def
                success_def res_json_def Let_def)

subsection \<open>The watchdog\<close>

lemma timed_out_step: "timed_out n s \<Longrightarrow> timed_out n (buffered_step sel ev s)"
  by (cases ev)
     (simp_all add: buffered_step_def timed_out_def buffered_on_error_def buffered_on_close_def
                    child_ended_def Let_def)

lemma timeout_fires:
  assumes "untouched s"
  shows "timed_out (if gone (proc s) then 0 else 1) (buffered_step sel TimeoutElapsed s)"
  using assms
  by (simp add: buffered_step_def untouched_def timed_out_def buffered_on_timeout_def
                gateway_timeout_def res_json_def child_kill_def Let_def)

lemma not_fired_step:
  assumes "not_fired s" and "ev \<noteq> TimeoutElapsed"
  shows "not_fired (buffered_step sel ev s)"
  using assms
  by (cases ev)
     (auto simp: buffered_step_def not_fired_def buffered_on_error_def buffered_on_close_def
                 child_ended_def res_json_def spawn_failure_def cli_error_def success_def
                 gateway_timeout_def Let_def)

lemma not_fired_run:
  assumes "TimeoutElapsed \<notin> set pre"
  shows "not_fired (buffered_run sel pre)"
  using assms
proof (induction pre rule: rev_induct)
  case Nil
  show ?case
    by (simp add: buffered_run_def buffered_init_def not_fired_def new_child_def)
next
  case (snoc ev pre)
  then have "not_fired (buffered_run sel pre)" and "ev \<noteq> TimeoutElapsed" by auto
  then show ?case unfolding buffered_run_snoc by (rule not_fired_step)
qed

lemma timer_cleared_step: "timer_cleared s \<Longrightarrow> timer_cleared (buffered_step sel ev s)"
  by (cases ev)
     (auto simp: buffered_step_def timer_cleared_def buffered_on_error_def buffered_on_close_def
                 child_ended_def res_json_def spawn_failure_def cli_error_def success_def
                 gateway_timeout_def Let_def)

lemma close_clears_timer:
  assumes "not_fired s"
  shows "timer_cleared (buffered_step sel (OnClose code) s)"
  using assms
  by (auto simp: buffered_step_def not_fired_def timer_cleared_def buffered_on_close_def
                 child_ended_def res_json_def cli_error_def success_def gateway_timeout_def
                 Let_def)

text \<open>
  C3, as the code has it. On the buffered path the watchdog is armed when the handler gets
  the child. If it fires before any \<open>error\<close> or \<open>close\<close> was seen, the response is the 504 and
  nothing else, whatever happens afterwards, and, the process not having exited, the process
  gets one SIGTERM. If the child's \<open>close\<close> comes before the timer fires, the timer is
  cleared: no 504 is ever sent and no signal delivered. The streaming path sets no timer.
\<close>

theorem watchdog_on_buffered_path:
  "(list_all is_quiet pre \<longrightarrow>
       sent (buffered_run sel (pre @ TimeoutElapsed # rest)) = [gateway_timeout]
     \<and> (OnExit \<notin> set pre \<longrightarrow>
          killed (proc (buffered_run sel (pre @ TimeoutElapsed # rest)))
        \<and> sigterms (proc (buffered_run sel (pre @ TimeoutElapsed # rest))) = 1))
   \<and> (TimeoutElapsed \<notin> set pre \<longrightarrow>
       gateway_timeout \<notin> set (sent (buffered_run sel (pre @ OnClose code # rest)))
     \<and> \<not> timer_pending (buffered_run sel (pre @ OnClose code # rest))
     \<and> sigterms (proc (buffered_run sel (pre @ OnClose code # rest))) = 0)"
proof (intro conjI impI)
  assume q: "list_all is_quiet pre"
  let ?n = "if gone (proc (buffered_run sel pre)) then 0 else 1 :: nat"
  from q have "untouched (buffered_run sel pre)" using quiet_run by blast
  then have "timed_out ?n (buffered_run sel (pre @ [TimeoutElapsed]))"
    unfolding buffered_run_snoc by (rule timeout_fires)
  then have "timed_out ?n (buffered_run sel ((pre @ [TimeoutElapsed]) @ rest))"
    by (rule buffered_run_invariant) (rule timed_out_step)
  then have t: "timed_out ?n (buffered_run sel (pre @ TimeoutElapsed # rest))" by simp
  from t show "sent (buffered_run sel (pre @ TimeoutElapsed # rest)) = [gateway_timeout]"
    by (simp add: timed_out_def)
  {
    assume "OnExit \<notin> set pre"
    then have n: "?n = 1" using quiet_run_alive [OF q] by simp
    from t show "killed (proc (buffered_run sel (pre @ TimeoutElapsed # rest)))"
      unfolding n by (simp add: timed_out_def)
    from t show "sigterms (proc (buffered_run sel (pre @ TimeoutElapsed # rest))) = 1"
      unfolding n by (simp add: timed_out_def)
  }
next
  assume "TimeoutElapsed \<notin> set pre"
  then have "not_fired (buffered_run sel pre)" by (rule not_fired_run)
  then have "timer_cleared (buffered_run sel (pre @ [OnClose code]))"
    unfolding buffered_run_snoc by (rule close_clears_timer)
  then have "timer_cleared (buffered_run sel ((pre @ [OnClose code]) @ rest))"
    by (rule buffered_run_invariant) (rule timer_cleared_step)
  then have c: "timer_cleared (buffered_run sel (pre @ OnClose code # rest))" by simp
  from c show "gateway_timeout \<notin> set (sent (buffered_run sel (pre @ OnClose code # rest)))"
    by (simp add: timer_cleared_def)
  from c show "\<not> timer_pending (buffered_run sel (pre @ OnClose code # rest))"
    by (simp add: timer_cleared_def)
  from c show "sigterms (proc (buffered_run sel (pre @ OnClose code # rest))) = 0"
    by (simp add: timer_cleared_def)
qed

theorem watchdog_on_buffered_path_witness:
  "list_all is_quiet [OnStdout ''par'', OnStderr ''slow'']
   \<and> OnExit \<notin> set [OnStdout ''par'', OnStderr ''slow'']
   \<and> sent (buffered_run (JStr ''gemini-2.5-flash'')
        [OnStdout ''par'', OnStderr ''slow'', TimeoutElapsed, OnExit, OnClose None])
     = [gateway_timeout]
   \<and> sigterms (proc (buffered_run (JStr ''gemini-2.5-flash'')
        [OnStdout ''par'', OnStderr ''slow'', TimeoutElapsed, OnExit, OnClose None])) = 1
   \<and> TimeoutElapsed \<notin> set [OnStdout ''par'', OnStderr ''slow'']
   \<and> sent (buffered_run (JStr ''gemini-2.5-flash'')
        [OnStdout ''par'', OnStderr ''slow'', OnClose (Some 0), TimeoutElapsed])
     = [success (JStr ''gemini-2.5-flash'') ''par'']
   \<and> gateway_timeout \<notin> set (sent (buffered_run (JStr ''gemini-2.5-flash'')
        [OnStdout ''par'', OnStderr ''slow'', OnClose (Some 0), TimeoutElapsed]))"
proof -
  have "sent (buffered_run (JStr ''gemini-2.5-flash'')
        [OnStdout ''par'', OnStderr ''slow'', OnClose (Some 0), TimeoutElapsed])
     = [success (JStr ''gemini-2.5-flash'') ''par'']"
    by (simp add: buffered_run_def buffered_step_def buffered_init_def buffered_on_close_def
                  res_json_def success_def trim_def js_space_def child_ended_def new_child_def)
  then show ?thesis
    using watchdog_on_buffered_path
            [of "[OnStdout ''par'', OnStderr ''slow'']" "JStr ''gemini-2.5-flash''"
                "[OnExit, OnClose None]" "Some 0"]
          watchdog_on_buffered_path
            [of "[OnStdout ''par'', OnStderr ''slow'']" "JStr ''gemini-2.5-flash''"
                "[TimeoutElapsed]" "Some 0"]
    by simp
qed

text \<open>
  C3, as stated, fails on the streaming path: when the timeout has elapsed with the process
  still running, the streaming handler has sent no signal and written nothing, and the
  request then ends with the ordinary \<open>done\<close> frame.
\<close>

theorem streaming_has_no_watchdog:
  "sigterms (sproc (stream_run [OnStdout ''a\<newline>'', TimeoutElapsed])) = 0
   \<and> \<not> killed (sproc (stream_run [OnStdout ''a\<newline>'', TimeoutElapsed]))
   \<and> res_calls (stream_run [OnStdout ''a\<newline>'', TimeoutElapsed]) = [Write (data_frame ''a'')]
   \<and> res_calls (stream_run [OnStdout ''a\<newline>'', TimeoutElapsed, OnClose (Some 0)])
       = [Write (data_frame ''a''), Write done_frame, End]"
  by (simp add: stream_run_def streaming_init_def stream_on_stdout_def stream_on_close_def
                relay.simps indexOf_newline_def trim_def js_space_def new_child_def
                child_ended_def)


section \<open>Properties of the streaming path\<close>

subsection \<open>The line loop\<close>

lemma lines_acc_Cons:
  "lines_acc cur (c # cs) =
     (if c = CHR 0x0A then (cur # fst (lines_acc [] cs), snd (lines_acc [] cs))
      else lines_acc (cur @ [c]) cs)"
  by (simp split: prod.splits)

lemma lines_acc_no_newline:
  "CHR 0x0A \<notin> set pre \<Longrightarrow> lines_acc cur (pre @ s) = lines_acc (cur @ pre) s"
proof (induction pre arbitrary: cur)
  case Nil
  show ?case by simp
next
  case (Cons c pre)
  then have "c \<noteq> CHR 0x0A" and "CHR 0x0A \<notin> set pre" by auto
  then show ?case using Cons.IH [of "cur @ [c]"] by simp
qed

lemma lines_acc_held: "CHR 0x0A \<notin> set s \<Longrightarrow> lines_acc cur s = ([], cur @ s)"
  using lines_acc_no_newline [of s cur "[]"] by simp

lemma lines_acc_append:
  "fst (lines_acc cur (xs @ ys))
     = fst (lines_acc cur xs) @ fst (lines_acc (snd (lines_acc cur xs)) ys)"
  "snd (lines_acc cur (xs @ ys)) = snd (lines_acc (snd (lines_acc cur xs)) ys)"
proof (induction xs arbitrary: cur)
  case Nil
  { case 1 show ?case by simp }
  { case 2 show ?case by simp }
next
  case (Cons c xs)
  { case 1 show ?case
      using Cons.IH(1) by (simp add: lines_acc_Cons del: lines_acc.simps(2)) }
  { case 2 show ?case
      using Cons.IH(2) by (simp add: lines_acc_Cons del: lines_acc.simps(2)) }
qed

lemma lines_acc_rest_clean: "CHR 0x0A \<notin> set cur \<Longrightarrow> CHR 0x0A \<notin> set (snd (lines_acc cur s))"
proof (induction s arbitrary: cur)
  case Nil
  then show ?case by simp
next
  case (Cons c s)
  show ?case
  proof (cases "c = CHR 0x0A")
    case True
    then show ?thesis using Cons.IH [of "[]"] by (simp add: lines_acc_Cons del: lines_acc.simps(2))
  next
    case False
    then show ?thesis
      using Cons.IH [of "cur @ [c]"] Cons.prems
      by (simp add: lines_acc_Cons del: lines_acc.simps(2))
  qed
qed

lemma trailing_clean: "CHR 0x0A \<notin> set (trailing s)"
  by (simp add: trailing_def lines_acc_rest_clean)

lemma lines_acc_start: "CHR 0x0A \<notin> set cur \<Longrightarrow> lines_acc cur s = lines_acc [] (cur @ s)"
  using lines_acc_no_newline [of cur "[]" s] by simp

lemma complete_lines_append:
  "complete_lines (xs @ ys) = complete_lines xs @ complete_lines (trailing xs @ ys)"
proof -
  have "complete_lines (xs @ ys)
          = fst (lines_acc [] xs) @ fst (lines_acc (snd (lines_acc [] xs)) ys)"
    unfolding complete_lines_def by (rule lines_acc_append(1))
  also have "lines_acc (snd (lines_acc [] xs)) ys = lines_acc [] (trailing xs @ ys)"
    using lines_acc_start [OF trailing_clean, of xs ys] by (simp only: trailing_def)
  finally show ?thesis by (simp only: complete_lines_def)
qed

lemma trailing_append: "trailing (xs @ ys) = trailing (trailing xs @ ys)"
proof -
  have "trailing (xs @ ys) = snd (lines_acc (snd (lines_acc [] xs)) ys)"
    unfolding trailing_def by (rule lines_acc_append(2))
  also have "lines_acc (snd (lines_acc [] xs)) ys = lines_acc [] (trailing xs @ ys)"
    using lines_acc_start [OF trailing_clean, of xs ys] by (simp only: trailing_def)
  finally show ?thesis by (simp only: trailing_def)
qed

lemma cut_at_newline:
  assumes "CHR 0x0A \<in> set buf"
  shows "buf = takeWhile (\<lambda>c. c \<noteq> CHR 0x0A) buf
               @ CHR 0x0A # drop (length (takeWhile (\<lambda>c. c \<noteq> CHR 0x0A) buf) + 1) buf"
proof -
  let ?p = "takeWhile (\<lambda>c. c \<noteq> CHR 0x0A) buf"
  let ?d = "dropWhile (\<lambda>c. c \<noteq> CHR 0x0A) buf"
  have d: "?d \<noteq> []" using assms by simp
  then have "hd ?d = CHR 0x0A"
    using hd_dropWhile [of "\<lambda>c. c \<noteq> CHR 0x0A" buf] by simp
  with d have split: "?d = CHR 0x0A # tl ?d" by (cases ?d) simp_all
  have "tl ?d = tl (drop (length ?p) buf)" by (simp only: dropWhile_eq_drop)
  also have "\<dots> = drop (length ?p + 1) buf" by (simp add: drop_Suc tl_drop)
  finally have "?d = CHR 0x0A # drop (length ?p + 1) buf" using split by simp
  then have "?p @ ?d = ?p @ CHR 0x0A # drop (length ?p + 1) buf" by (simp only:)
  then show ?thesis by (simp only: takeWhile_dropWhile_id)
qed

lemma lines_at_newline:
  assumes "CHR 0x0A \<in> set buf"
  shows "complete_lines buf
           = takeWhile (\<lambda>c. c \<noteq> CHR 0x0A) buf
             # complete_lines (drop (length (takeWhile (\<lambda>c. c \<noteq> CHR 0x0A) buf) + 1) buf)"
    and "trailing buf
           = trailing (drop (length (takeWhile (\<lambda>c. c \<noteq> CHR 0x0A) buf) + 1) buf)"
proof -
  let ?p = "takeWhile (\<lambda>c. c \<noteq> CHR 0x0A) buf"
  let ?r = "drop (length ?p + 1) buf"
  have clean: "CHR 0x0A \<notin> set ?p" by (auto dest: set_takeWhileD)
  have "lines_acc [] buf = lines_acc [] (?p @ CHR 0x0A # ?r)"
    using cut_at_newline [OF assms] by simp
  also have "\<dots> = lines_acc ?p (CHR 0x0A # ?r)"
    using lines_acc_no_newline [OF clean, of "[]"] by simp
  finally have eq: "lines_acc [] buf = (?p # fst (lines_acc [] ?r), snd (lines_acc [] ?r))"
    by (simp add: lines_acc_Cons del: lines_acc.simps(2))
  show "complete_lines buf = ?p # complete_lines ?r" by (simp add: complete_lines_def eq)
  show "trailing buf = trailing ?r" by (simp add: trailing_def eq)
qed

lemma frames_Cons:
  "frames (l # ls) = (if trim l \<noteq> [] then [Write (data_frame (trim l))] else []) @ frames ls"
  by (simp add: frames_def)

text \<open>The loop writes the frames of the complete lines of the buffer and keeps the rest.\<close>

lemma relay_lines: "relay buf calls = (trailing buf, calls @ frames (complete_lines buf))"
proof (induction buf calls rule: relay.induct)
  case (1 buf calls)
  show ?case
  proof (cases "CHR 0x0A \<in> set buf")
    case False
    then have "relay buf calls = (buf, calls)"
      by (simp add: relay.simps [of buf calls] indexOf_newline_def)
    then show ?thesis
      using False by (simp add: trailing_def complete_lines_def lines_acc_held frames_def)
  next
    case True
    let ?p = "takeWhile (\<lambda>c. c \<noteq> CHR 0x0A) buf"
    let ?r = "drop (length ?p + 1) buf"
    let ?calls = "if trim ?p \<noteq> [] then calls @ [Write (data_frame (trim ?p))] else calls"
    have idx: "indexOf_newline buf = int (length ?p)" "indexOf_newline buf \<noteq> - 1"
      using True by (simp_all add: indexOf_newline_def)
    have tk: "take (length ?p) buf = ?p" by (rule takeWhile_eq_take [symmetric])
    have n1: "nat (int (length ?p) + 1) = length ?p + 1" by simp
    have unfold: "relay buf calls = relay ?r ?calls"
      by (subst relay.simps) (simp add: idx Let_def tk n1)
    have ih: "relay ?r ?calls = (trailing ?r, ?calls @ frames (complete_lines ?r))"
      using "1.IH" [OF refl idx(2) refl refl, unfolded idx(1) nat_int n1 tk] .
    show ?thesis
      unfolding unfold ih lines_at_newline [OF True] frames_Cons by simp
  qed
qed


subsection \<open>Runs of the streaming handler\<close>

lemma stream_run_snoc: "stream_run (evs @ [ev]) = stream_step ev (stream_run evs)"
  by (simp add: stream_run_def)

lemma stream_on_stdout_fields:
  "buffer (stream_on_stdout chunk s) = trailing (buffer s @ chunk)"
  "res_calls (stream_on_stdout chunk s)
     = res_calls s @ frames (complete_lines (buffer s @ chunk))"
  "sproc (stream_on_stdout chunk s) = sproc s"
  by (simp_all add: stream_on_stdout_def relay_lines)

lemma frames_append: "frames (xs @ ys) = frames xs @ frames ys"
  by (simp add: frames_def)

lemma open_step:
  assumes "keeps_open ev"
    and "buffer s = trailing (stdout_of pre)"
    and "res_calls s = frames (complete_lines (stdout_of pre))"
  shows "buffer (stream_step ev s) = trailing (stdout_of (pre @ [ev]))"
    and "res_calls (stream_step ev s) = frames (complete_lines (stdout_of (pre @ [ev])))"
proof -
  show "buffer (stream_step ev s) = trailing (stdout_of (pre @ [ev]))"
    using assms
    by (cases ev)
       (simp_all add: keeps_open_def stdout_of_append stream_on_stdout_fields
                      stream_on_disconnect_def trailing_append [of "stdout_of pre"])
  show "res_calls (stream_step ev s) = frames (complete_lines (stdout_of (pre @ [ev])))"
    using assms
    by (cases ev)
       (simp_all add: keeps_open_def stdout_of_append stream_on_stdout_fields
                      stream_on_disconnect_def complete_lines_append [of "stdout_of pre"]
                      frames_append)
qed

text \<open>
  Until the process ends, the handler has written the frames of the non-empty complete lines
  of the standard output so far, and holds what follows the last line feed.
\<close>

lemma open_run:
  assumes "list_all keeps_open pre"
  shows "buffer (stream_run pre) = trailing (stdout_of pre)
       \<and> res_calls (stream_run pre) = frames (complete_lines (stdout_of pre))"
  using assms
proof (induction pre rule: rev_induct)
  case Nil
  show ?case
    by (simp add: stream_run_def streaming_init_def trailing_def complete_lines_def frames_def)
next
  case (snoc ev pre)
  then have "keeps_open ev" and "buffer (stream_run pre) = trailing (stdout_of pre)"
    and "res_calls (stream_run pre) = frames (complete_lines (stdout_of pre))"
    by simp_all
  then show ?case unfolding stream_run_snoc using open_step by blast
qed

lemma stream_step_extends: "\<exists>xs. res_calls (stream_step ev s) = res_calls s @ xs"
  by (cases ev)
     (simp_all add: stream_on_error_def stream_on_close_def stream_on_stdout_fields
                    stream_on_disconnect_def)

lemma stream_run_extends: "\<exists>xs. res_calls (stream_run (evs @ rest)) = res_calls (stream_run evs) @ xs"
proof (induction rest rule: rev_induct)
  case Nil
  show ?case by simp
next
  case (snoc ev rest)
  then obtain xs where "res_calls (stream_run (evs @ rest)) = res_calls (stream_run evs) @ xs"
    by blast
  moreover obtain ys where
    "res_calls (stream_step ev (stream_run (evs @ rest))) = res_calls (stream_run (evs @ rest)) @ ys"
    using stream_step_extends by blast
  moreover have "stream_run (evs @ rest @ [ev]) = stream_step ev (stream_run (evs @ rest))"
    by (simp add: stream_run_def)
  ultimately show ?case by simp
qed

lemma wire_of_frames:
  "wire_of (frames ls @ cs) = map data_frame (filter (\<lambda>l. l \<noteq> []) (map trim ls)) @ wire_of cs"
  by (induction ls) (simp_all add: frames_def)

lemma frames_no_End: "End \<notin> set (frames ls)"
  by (auto simp: frames_def)

lemma frames_are_frames: "list_all is_frame (wire_of (frames ls))"
  using wire_of_frames [of ls "[]"] by (auto simp: list_all_iff is_frame_def)


subsection \<open>The frames a caller receives\<close>

text \<open>
  C8, as the code has it. For every sequence of events that does not end the process, the
  handler has written one \<open>data\<close> frame for each complete line of the concatenated standard
  output whose trimmed text is not empty, in order, each carrying the trimmed line; a line
  that trims to the empty string is cut off the buffer without a frame. What follows the
  last line feed is held, and is still held (never written) when \<open>close\<close> adds the \<open>done\<close>
  frame and ends the response.
\<close>

theorem stream_relays_nonempty_lines:
  assumes "list_all keeps_open pre"
  shows "res_calls (stream_run pre) = frames (complete_lines (stdout_of pre))
       \<and> buffer (stream_run pre) = trailing (stdout_of pre)
       \<and> res_calls (stream_run (pre @ [OnClose code]))
           = frames (complete_lines (stdout_of pre)) @ [Write done_frame, End]
       \<and> buffer (stream_run (pre @ [OnClose code])) = trailing (stdout_of pre)"
  using open_run [OF assms]
  by (simp add: stream_run_snoc stream_on_close_def)

theorem stream_relays_nonempty_lines_witness:
  "list_all keeps_open [OnStdout ''a\<newline>b\<newline>c'']
   \<and> complete_lines ''a\<newline>b\<newline>c'' = [''a'', ''b'']
   \<and> trailing ''a\<newline>b\<newline>c'' = ''c''
   \<and> res_calls (stream_run [OnStdout ''a\<newline>b\<newline>c'', OnClose (Some 0)])
       = [Write (data_frame ''a''), Write (data_frame ''b''), Write done_frame, End]
   \<and> buffer (stream_run [OnStdout ''a\<newline>b\<newline>c'', OnClose (Some 0)]) = ''c''"
  using stream_relays_nonempty_lines [of "[OnStdout ''a\<newline>b\<newline>c'']" "Some 0"]
  by (simp add: keeps_open_def complete_lines_def trailing_def frames_def trim_def js_space_def)

text \<open>
  C8, as stated, fails: the text \<open>a\n\nb\n\<close> has three complete lines, the second of which is
  empty, and the handler writes two frames, not one for each line.
\<close>

theorem blank_line_gets_no_frame:
  "complete_lines ''a\<newline>\<newline>b\<newline>'' = [''a'', [], ''b'']
   \<and> res_calls (stream_run [OnStdout ''a\<newline>\<newline>b\<newline>''])
       = [Write (data_frame ''a''), Write (data_frame ''b'')]
   \<and> res_calls (stream_run [OnStdout ''a\<newline>\<newline>b\<newline>''])
       \<noteq> map (\<lambda>l. Write (data_frame (trim l))) (complete_lines ''a\<newline>\<newline>b\<newline>'')"
  by (simp add: stream_run_def streaming_init_def stream_on_stdout_fields complete_lines_def
                frames_def trim_def js_space_def)

text \<open>
  Take any signals that do not end the process, then the child's \<open>close\<close>, then anything at
  all. Before the \<open>close\<close> the response is open and holds \<open>data\<close> frames only. What the caller
  receives in the end is those frames followed by the \<open>done\<close> frame, whatever the exit code;
  the response is ended by that very signal, and nothing that comes later is received.
\<close>

lemma stream_ends_with_done_frame:
  assumes "list_all keeps_open pre"
  shows "list_all is_frame (wire_of (res_calls (stream_run pre)))
       \<and> End \<notin> set (res_calls (stream_run pre))
       \<and> wire_of (res_calls (stream_run (pre @ OnClose code # rest)))
           = wire_of (res_calls (stream_run pre)) @ [done_frame]
       \<and> End \<in> set (res_calls (stream_run (pre @ [OnClose code])))"
proof -
  let ?fs = "frames (complete_lines (stdout_of pre))"
  have calls: "res_calls (stream_run pre) = ?fs" using open_run [OF assms] by simp
  have wire: "wire_of (?fs @ cs) = wire_of ?fs @ wire_of cs" for cs
    using wire_of_frames [of _ cs] wire_of_frames [of _ "[]"] by simp
  have closed: "res_calls (stream_run (pre @ [OnClose code])) = ?fs @ [Write done_frame, End]"
    by (simp add: stream_run_snoc stream_on_close_def calls)
  obtain xs where xs: "res_calls (stream_run ((pre @ [OnClose code]) @ rest))
                         = (?fs @ [Write done_frame, End]) @ xs"
    using stream_run_extends [of "pre @ [OnClose code]" rest] closed by auto
  show ?thesis
  proof (intro conjI)
    show "list_all is_frame (wire_of (res_calls (stream_run pre)))"
      by (simp add: calls frames_are_frames)
    show "End \<notin> set (res_calls (stream_run pre))"
      by (simp add: calls frames_no_End)
    show "wire_of (res_calls (stream_run (pre @ OnClose code # rest)))
            = wire_of (res_calls (stream_run pre)) @ [done_frame]"
      using xs by (simp add: calls wire)
    show "End \<in> set (res_calls (stream_run (pre @ [OnClose code])))"
      by (simp add: closed)
  qed
qed

text \<open>
  C7. The spawn failure of a streaming request that was admitted at once: the \<open>error\<close> is
  emitted before the handler has registered its listener, so the handler hears only the
  \<open>close\<close>. The caller receives the \<open>done\<close> frame, and no \<open>error\<close> frame at all.
\<close>

theorem fresh_spawn_failure_streams_done_frame:
  "hears False [SpawnFails ''spawn gemini ENOENT'', Closes (Some (- 2))]
     = [OnExit, OnClose (Some (- 2))]
   \<and> res_calls (stream_run
        (hears False [SpawnFails ''spawn gemini ENOENT'', Closes (Some (- 2))]))
     = [Write done_frame, End]
   \<and> wire_of (res_calls (stream_run
        (hears False [SpawnFails ''spawn gemini ENOENT'', Closes (Some (- 2))])))
     = [done_frame]
   \<and> error_frame ''spawn gemini ENOENT''
       \<notin> set (wire_of (res_calls (stream_run
                (hears False [SpawnFails ''spawn gemini ENOENT'', Closes (Some (- 2))]))))"
  by (simp add: hears_def stream_run_def streaming_init_def stream_on_close_def
                done_frame_def error_frame_def)

text \<open>
  A streaming request that had been parked does hear the \<open>error\<close>: the caller receives the
  \<open>error\<close> frame alone, also when \<open>close\<close> follows.
\<close>

lemma woken_spawn_failure_streams_error_frame:
  "wire_of (res_calls (stream_run (hears True [SpawnFails m, Closes code]))) = [error_frame m]"
  by (simp add: hears_def stream_run_def streaming_init_def stream_on_error_def
                stream_on_close_def)

text \<open>
  For such a request the \<open>close\<close> listener still calls \<open>res.write\<close> and \<open>res.end\<close>, on a
  response the \<open>error\<close> listener has ended.
\<close>

lemma close_listener_writes_after_end:
  "res_calls (stream_run (hears True [SpawnFails m, Closes code]))
     = [Write (error_frame m), End, Write done_frame, End]"
  by (simp add: hears_def stream_run_def streaming_init_def stream_on_error_def
                stream_on_close_def)


subsection \<open>Client disconnect\<close>

lemma hears_no_ClientGone: "ClientGone \<notin> set (hears woken hs)"
proof -
  have "ClientGone \<notin> set (hear woken h)" for h
    by (cases h) simp_all
  then show ?thesis by (auto simp: hears_def)
qed

lemma stream_step_unsignalled:
  assumes "ev \<noteq> ClientGone" and "\<not> killed (sproc s)" and "sigterms (sproc s) = 0"
  shows "\<not> killed (sproc (stream_step ev s)) \<and> sigterms (sproc (stream_step ev s)) = 0"
  using assms
  by (cases ev)
     (simp_all add: stream_on_error_def stream_on_close_def stream_on_stdout_fields
                    child_ended_def)

lemma stream_run_unsignalled:
  assumes "ClientGone \<notin> set evs"
  shows "\<not> killed (sproc (stream_run evs)) \<and> sigterms (sproc (stream_run evs)) = 0"
  using assms
proof (induction evs rule: rev_induct)
  case Nil
  show ?case by (simp add: stream_run_def streaming_init_def new_child_def)
next
  case (snoc ev evs)
  then have "ev \<noteq> ClientGone" and "\<not> killed (sproc (stream_run evs))"
    and "sigterms (sproc (stream_run evs)) = 0"
    by auto
  then show ?case unfolding stream_run_snoc by (rule stream_step_unsignalled)
qed

text \<open>
  C9. The listener of the request's \<open>close\<close> event is registered after that event has been
  emitted, so no disconnect ever calls it: whatever happens, a streaming handler never
  calls \<open>child.kill()\<close>, and the process receives no signal. When the client disconnects
  between two lines of output, the process runs on, and the handler goes on writing: the
  frame of the second line, the \<open>done\<close> frame and the end of the response all come after the
  disconnect.
\<close>

theorem disconnect_is_never_heard:
  "ClientGone \<notin> set (hears woken hs)
   \<and> \<not> killed (sproc (stream_run (hears woken hs)))
   \<and> sigterms (sproc (stream_run (hears woken hs))) = 0
   \<and> hears False [Stdout ''a\<newline>'', Disconnects, Stdout ''b\<newline>'', Closes (Some 0)]
       = [OnStdout ''a\<newline>'', OnStdout ''b\<newline>'', OnClose (Some 0)]
   \<and> res_calls (stream_run (hears False [Stdout ''a\<newline>'', Disconnects]))
       = [Write (data_frame ''a'')]
   \<and> res_calls (stream_run
        (hears False [Stdout ''a\<newline>'', Disconnects, Stdout ''b\<newline>'', Closes (Some 0)]))
       = [Write (data_frame ''a''), Write (data_frame ''b''), Write done_frame, End]"
proof (intro conjI)
  show "ClientGone \<notin> set (hears woken hs)" by (rule hears_no_ClientGone)
  show "\<not> killed (sproc (stream_run (hears woken hs)))"
    using stream_run_unsignalled [OF hears_no_ClientGone] by blast
  show "sigterms (sproc (stream_run (hears woken hs))) = 0"
    using stream_run_unsignalled [OF hears_no_ClientGone] by blast
  show "hears False [Stdout ''a\<newline>'', Disconnects, Stdout ''b\<newline>'', Closes (Some 0)]
          = [OnStdout ''a\<newline>'', OnStdout ''b\<newline>'', OnClose (Some 0)]"
    by (simp add: hears_def)
  show "res_calls (stream_run (hears False [Stdout ''a\<newline>'', Disconnects]))
          = [Write (data_frame ''a'')]"
    by (simp add: hears_def stream_run_def streaming_init_def stream_on_stdout_fields
                  complete_lines_def frames_def trim_def js_space_def)
  show "res_calls (stream_run
          (hears False [Stdout ''a\<newline>'', Disconnects, Stdout ''b\<newline>'', Closes (Some 0)]))
          = [Write (data_frame ''a''), Write (data_frame ''b''), Write done_frame, End]"
    by (simp add: hears_def stream_run_def streaming_init_def stream_on_stdout_fields
                  stream_on_close_def complete_lines_def trailing_def frames_def trim_def
                  js_space_def)
qed

end
